theory Spec2Isabelle
  imports Main
begin

section \<open>The operation graph\<close>

text \<open>
  Modelled from the spec: the declarations of the dialect (\<open>toy/Dialect.h\<close>) and the IR
  classes of the host framework are not among the sources.  A value is the result of an
  operation (named by the identity of that operation) or a block argument.  An operation
  carries its identity, its kind, its ordered operands, the type of its result and its
  source location.  A graph is the list of the operations of one block, in program order.
  The type of a value is the shape of a tensor.
\<close>

datatype val = OpResult nat | BlockArg nat

datatype opkind = Transpose | Reshape | Constant | Add | Mul | Print | Return

type_synonym ty = "nat list"

record operation =
  op_id :: nat
  op_kind :: opkind
  operands :: "val list"
  result_type :: ty
  loc :: nat

type_synonym graph = "operation list"

datatype LogicalResult = failure | success

definition lookup_op :: "graph \<Rightarrow> nat \<Rightarrow> operation option" where
  "lookup_op g i = find (\<lambda>p. op_id p = i) g"

text \<open>Modelled from the spec: \<open>Value::getDefiningOp()\<close>, the operation that produces a
  value, none for a block argument.\<close>

definition getDefiningOp :: "graph \<Rightarrow> val \<Rightarrow> operation option" where
  "getDefiningOp g v = (case v of BlockArg n \<Rightarrow> None | OpResult i \<Rightarrow> lookup_op g i)"

text \<open>Modelled from the spec: \<open>Value::getDefiningOp<OpTy>()\<close>, the defining operation
  when it exists and has the kind asked for, null otherwise.\<close>

definition getDefiningOp_as :: "opkind \<Rightarrow> graph \<Rightarrow> val \<Rightarrow> operation option" where
  "getDefiningOp_as k g v =
     (case getDefiningOp g v of
        None \<Rightarrow> None
      | Some d \<Rightarrow> if op_kind d = k then Some d else None)"

text \<open>Modelled from the spec: \<open>getOperand()\<close> of a unary operation, its sole operand,
  and \<open>getResult()\<close>.  A transpose or a reshape has exactly one operand (\<open>wf_op\<close> below
  says so), and the accessor is only ever applied to such an operation.\<close>

definition getOperand :: "operation \<Rightarrow> val" where
  "getOperand p = hd (operands p)"

definition getResult :: "operation \<Rightarrow> val" where
  "getResult p = OpResult (op_id p)"

definition ids :: "graph \<Rightarrow> nat set" where
  "ids g = op_id ` set g"

definition users_of :: "graph \<Rightarrow> val \<Rightarrow> operation list" where
  "users_of g v = filter (\<lambda>p. v \<in> set (operands p)) g"

section \<open>The rewriter interface\<close>

text \<open>
  Modelled from the spec: the rewriter and the driver's bookkeeping belong to the host
  framework, which is not among the sources.  The rewriter state is the graph together
  with the driver's worklist of operation identities; a mutation notifies the driver,
  which queues the operations whose operands changed, the operations created, and the
  producers of the operands of an erased operation.
\<close>

record rewriter =
  ir :: graph
  worklist :: "nat list"

definition addToWorklist :: "nat \<Rightarrow> rewriter \<Rightarrow> rewriter" where
  "addToWorklist i rw =
     (if i \<in> set (worklist rw) then rw else rw\<lparr>worklist := worklist rw @ [i]\<rparr>)"

definition subst_val :: "val \<Rightarrow> val \<Rightarrow> val \<Rightarrow> val" where
  "subst_val old new v = (if v = old then new else v)"

definition rewire :: "val \<Rightarrow> val \<Rightarrow> operation \<Rightarrow> operation" where
  "rewire old new p = p\<lparr>operands := map (subst_val old new) (operands p)\<rparr>"

text \<open>Modelled from the spec: rewires every use of a value to the replacement; every
  user is queued again (its operands changed).\<close>

definition replaceAllUsesWith :: "val \<Rightarrow> val \<Rightarrow> rewriter \<Rightarrow> rewriter" where
  "replaceAllUsesWith old new rw =
     (fold addToWorklist (map op_id (users_of (ir rw) old)) rw)
       \<lparr>ir := map (rewire old new) (ir rw)\<rparr>"

definition producers :: "graph \<Rightarrow> operation \<Rightarrow> nat list" where
  "producers g p =
     concat (map (\<lambda>v. case getDefiningOp g v of None \<Rightarrow> [] | Some d \<Rightarrow> [op_id d]) (operands p))"

text \<open>Modelled from the spec: erasing releases the operand uses (the producers are queued
  for cleanup), takes the operation out of the graph and out of the worklist.\<close>

definition eraseOp :: "operation \<Rightarrow> rewriter \<Rightarrow> rewriter" where
  "eraseOp p rw =
     (let rw1 = fold addToWorklist (producers (ir rw) p) rw
      in rw1\<lparr>ir := filter (\<lambda>q. op_id q \<noteq> op_id p) (ir rw1),
             worklist := removeAll (op_id p) (worklist rw1)\<rparr>)"

text \<open>Modelled from the spec: \<open>replaceOperation(op, replacementValues)\<close> rewires every use
  of the result of \<open>op\<close> to the replacement value and then erases \<open>op\<close>.  Every operation of
  this dialect has at most one result, so one replacement value is expected; a call with
  any other number of values is not applied at all.\<close>

fun replaceOp :: "operation \<Rightarrow> val list \<Rightarrow> rewriter \<Rightarrow> rewriter" where
  "replaceOp p [v] rw = eraseOp p (replaceAllUsesWith (getResult p) v rw)"
| "replaceOp p vs rw = rw"

definition fresh_id :: "graph \<Rightarrow> nat" where
  "fresh_id g = Suc (fold max (map op_id g) 0)"

definition insertBefore :: "nat \<Rightarrow> operation \<Rightarrow> graph \<Rightarrow> graph" where
  "insertBefore i new g =
     takeWhile (\<lambda>p. op_id p \<noteq> i) g @ new # dropWhile (\<lambda>p. op_id p \<noteq> i) g"

text \<open>Modelled from the spec: \<open>replaceWithNew(op, newOpSpec)\<close> builds the new operation
  (kind, result type, operands) with a fresh identity and the location of \<open>op\<close>, inserts
  it immediately before \<open>op\<close>, queues it, and then replaces \<open>op\<close> by its result.\<close>

definition replaceOpWithNewOp ::
  "opkind \<Rightarrow> operation \<Rightarrow> ty \<Rightarrow> val list \<Rightarrow> rewriter \<Rightarrow> rewriter" where
  "replaceOpWithNewOp k p t vs rw =
     (let new = \<lparr>op_id = fresh_id (ir rw), op_kind = k, operands = vs,
                 result_type = t, loc = loc p\<rparr>;
          rw1 = addToWorklist (op_id new) (rw\<lparr>ir := insertBefore (op_id p) new (ir rw)\<rparr>)
      in replaceOp p [getResult new] rw1)"

section \<open>The two rewrite patterns\<close>

text \<open>A pattern pairs a root operation kind and a benefit with its match-and-rewrite
  procedure.  The two procedures and the two registration hooks below are the source file
  \<open>ToyCombine.cpp\<close>; both patterns are declared there with benefit 1.\<close>

record pattern =
  root_kind :: opkind
  benefit :: nat
  matchAndRewrite :: "operation \<Rightarrow> rewriter \<Rightarrow> LogicalResult \<times> rewriter"

text \<open>\<open>SimplifyRedundantTranspose::matchAndRewrite\<close>: transpose(transpose(x)) -> x.\<close>

definition SimplifyRedundantTranspose_matchAndRewrite ::
  "operation \<Rightarrow> rewriter \<Rightarrow> LogicalResult \<times> rewriter" where
  "SimplifyRedundantTranspose_matchAndRewrite p rw =
     (let transposeInput = getOperand p
      in case getDefiningOp_as Transpose (ir rw) transposeInput of
           None \<Rightarrow> (failure, rw)
         | Some transposeInputOp \<Rightarrow>
             (success, replaceOp p [getOperand transposeInputOp] rw))"

definition SimplifyRedundantTranspose :: pattern where
  "SimplifyRedundantTranspose =
     \<lparr>root_kind = Transpose, benefit = 1,
      matchAndRewrite = SimplifyRedundantTranspose_matchAndRewrite\<rparr>"

text \<open>\<open>ReshapeReshapeOptPattern::matchAndRewrite\<close>: reshape(reshape(x)) -> reshape(x).\<close>

definition ReshapeReshapeOptPattern_matchAndRewrite ::
  "operation \<Rightarrow> rewriter \<Rightarrow> LogicalResult \<times> rewriter" where
  "ReshapeReshapeOptPattern_matchAndRewrite p rw =
     (let reshapeInput = getOperand p
      in case getDefiningOp_as Reshape (ir rw) reshapeInput of
           None \<Rightarrow> (failure, rw)
         | Some reshapeInputOp \<Rightarrow>
             (success,
              replaceOpWithNewOp Reshape p (result_type p) [getOperand reshapeInputOp] rw))"

definition ReshapeReshapeOptPattern :: pattern where
  "ReshapeReshapeOptPattern =
     \<lparr>root_kind = Reshape, benefit = 1,
      matchAndRewrite = ReshapeReshapeOptPattern_matchAndRewrite\<rparr>"

text \<open>The registration hooks: each adds its pattern to the pattern set.\<close>

definition TransposeOp_getCanonicalizationPatterns :: "pattern list \<Rightarrow> pattern list" where
  "TransposeOp_getCanonicalizationPatterns results = results @ [SimplifyRedundantTranspose]"

definition ReshapeOp_getCanonicalizationPatterns :: "pattern list \<Rightarrow> pattern list" where
  "ReshapeOp_getCanonicalizationPatterns results = results @ [ReshapeReshapeOptPattern]"

section \<open>Well-formed graphs\<close>

text \<open>
  Print and return produce no value; every other operation has one result.  These other
  operations have no side effect.
\<close>

definition has_result :: "opkind \<Rightarrow> bool" where
  "has_result k = (k \<noteq> Print \<and> k \<noteq> Return)"

type_synonym tyenv = "val \<Rightarrow> ty option"

definition args_env :: "ty list \<Rightarrow> tyenv" where
  "args_env tys v =
     (case v of
        BlockArg n \<Rightarrow> if n < length tys then Some (tys ! n) else None
      | OpResult i \<Rightarrow> None)"

definition bind_result :: "operation \<Rightarrow> tyenv \<Rightarrow> tyenv" where
  "bind_result p G = (if has_result (op_kind p) then G(getResult p := Some (result_type p)) else G)"

text \<open>
  An operation is well-formed in a typing of the values defined before it when each of
  its operands is such a value, a transpose has one operand of a two-dimensional type and
  the reversed type as its result, and a reshape has one operand with as many elements as
  its result.
\<close>

definition wf_op :: "tyenv \<Rightarrow> operation \<Rightarrow> bool" where
  "wf_op G p =
     (list_all (\<lambda>v. G v \<noteq> None) (operands p) \<and>
      (op_kind p = Transpose \<longrightarrow>
         length (operands p) = 1 \<and> length (result_type p) = 2 \<and>
         G (getOperand p) = Some (rev (result_type p))) \<and>
      (op_kind p = Reshape \<longrightarrow>
         length (operands p) = 1 \<and>
         map_option prod_list (G (getOperand p)) = Some (prod_list (result_type p))))"

text \<open>The operations of a block in program order: identities are pairwise distinct
  (\<open>U\<close> holds the ones seen) and every operand is defined before its use.\<close>

fun wf_ops :: "tyenv \<Rightarrow> nat set \<Rightarrow> graph \<Rightarrow> bool" where
  "wf_ops G U [] = True"
| "wf_ops G U (p # ps) =
     (op_id p \<notin> U \<and> wf_op G p \<and> wf_ops (bind_result p G) (insert (op_id p) U) ps)"

definition wf_graph :: "ty list \<Rightarrow> graph \<Rightarrow> bool" where
  "wf_graph tys g = wf_ops (args_env tys) {} g"

text \<open>The typing of all values of a graph.\<close>

definition type_env :: "ty list \<Rightarrow> graph \<Rightarrow> tyenv" where
  "type_env tys g = fold bind_result g (args_env tys)"

section \<open>The rewrite driver\<close>

text \<open>
  Modelled from the spec: the worklist driver of the host framework is not among the
  sources.  All operations are queued at the start.  The driver pops an operation; an
  operation that was erased meanwhile is skipped; an operation without side effect whose
  result is unused is erased (the cascade cleanup); otherwise the patterns registered for
  its kind are tried in descending benefit until one succeeds.  The number of worklist
  iterations is capped, and running into the cap is reported as non-convergence.
\<close>

definition isOpTriviallyDead :: "graph \<Rightarrow> operation \<Rightarrow> bool" where
  "isOpTriviallyDead g p = (has_result (op_kind p) \<and> users_of g (getResult p) = [])"

definition patterns_for :: "pattern list \<Rightarrow> opkind \<Rightarrow> pattern list" where
  "patterns_for ps k = rev (sort_key benefit (filter (\<lambda>q. root_kind q = k) ps))"

fun applyPatterns :: "pattern list \<Rightarrow> operation \<Rightarrow> rewriter \<Rightarrow> LogicalResult \<times> rewriter" where
  "applyPatterns [] p rw = (failure, rw)"
| "applyPatterns (q # qs) p rw =
     (case matchAndRewrite q p rw of
        (success, rw') \<Rightarrow> (success, rw')
      | (failure, rw') \<Rightarrow> applyPatterns qs p rw')"

datatype status = Converged | NonConvergence

definition process :: "pattern list \<Rightarrow> nat \<Rightarrow> rewriter \<Rightarrow> rewriter" where
  "process ps i rw =
     (case lookup_op (ir rw) i of
        None \<Rightarrow> rw
      | Some p \<Rightarrow>
          if isOpTriviallyDead (ir rw) p then eraseOp p rw
          else snd (applyPatterns (patterns_for ps (op_kind p)) p rw))"

fun driver :: "pattern list \<Rightarrow> nat \<Rightarrow> rewriter \<Rightarrow> status \<times> rewriter" where
  "driver ps 0 rw = (if worklist rw = [] then Converged else NonConvergence, rw)"
| "driver ps (Suc n) rw =
     (case worklist rw of
        [] \<Rightarrow> (Converged, rw)
      | i # wl \<Rightarrow> driver ps n (process ps i (rw\<lparr>worklist := wl\<rparr>)))"

definition canonicalization_patterns :: "pattern list" where
  "canonicalization_patterns =
     ReshapeOp_getCanonicalizationPatterns (TransposeOp_getCanonicalizationPatterns [])"

definition canonicalize :: "nat \<Rightarrow> graph \<Rightarrow> status \<times> graph" where
  "canonicalize cap g =
     (case driver canonicalization_patterns cap \<lparr>ir = g, worklist = map op_id g\<rparr> of
        (s, rw) \<Rightarrow> (s, ir rw))"

section \<open>Evaluation\<close>

text \<open>
  Modelled from the spec: the tensor semantics is not among the sources.  A tensor is a
  shape with its elements in row-major order.  Transposition reverses the two axes of a
  two-dimensional tensor; a reshape keeps the elements and changes the shape to one with
  the same number of elements.  The meaning of every other kind of operation is a
  parameter \<open>I\<close> (kind, identity, result type, argument values).  A result that does
  not have the result type of its operation is an error, and so is an input that does
  not have the type of its block argument; an error is the value \<open>None\<close>, which every
  operation propagates.
\<close>

record 'a tensor =
  shape :: "nat list"
  elems :: "'a list"

definition conforms :: "'a tensor \<Rightarrow> ty \<Rightarrow> bool" where
  "conforms t s = (shape t = s \<and> length (elems t) = prod_list s)"

definition transpose_t :: "'a tensor \<Rightarrow> 'a tensor option" where
  "transpose_t t =
     (case shape t of
        [r, c] \<Rightarrow>
          if length (elems t) = r * c
          then Some \<lparr>shape = [c, r],
                     elems = map (\<lambda>k. elems t ! ((k mod r) * c + k div r)) [0..<r * c]\<rparr>
          else None
      | _ \<Rightarrow> None)"

definition reshape_t :: "ty \<Rightarrow> 'a tensor \<Rightarrow> 'a tensor option" where
  "reshape_t s t =
     (if length (elems t) = prod_list (shape t) \<and> prod_list s = prod_list (shape t)
      then Some \<lparr>shape = s, elems = elems t\<rparr> else None)"

type_synonym 'a env = "val \<Rightarrow> 'a tensor option"

type_synonym 'a interp = "opkind \<Rightarrow> nat \<Rightarrow> ty \<Rightarrow> 'a tensor list \<Rightarrow> 'a tensor option"

definition checked :: "ty \<Rightarrow> 'a tensor option \<Rightarrow> 'a tensor option" where
  "checked s r = (case r of None \<Rightarrow> None | Some t \<Rightarrow> if conforms t s then Some t else None)"

definition eval_op :: "'a interp \<Rightarrow> 'a env \<Rightarrow> operation \<Rightarrow> 'a tensor option" where
  "eval_op I E p =
     checked (result_type p)
       (case those (map E (operands p)) of
          None \<Rightarrow> None
        | Some ts \<Rightarrow>
            if op_kind p = Transpose then (case ts of [t] \<Rightarrow> transpose_t t | _ \<Rightarrow> None)
            else if op_kind p = Reshape then (case ts of [t] \<Rightarrow> reshape_t (result_type p) t | _ \<Rightarrow> None)
            else I (op_kind p) (op_id p) (result_type p) ts)"

text \<open>Running a block: the operations with a result extend the environment, print and
  return are observed with the values of their operands.\<close>

fun run :: "'a interp \<Rightarrow> 'a env \<Rightarrow> graph \<Rightarrow> (opkind \<times> 'a tensor option list) list" where
  "run I E [] = []"
| "run I E (p # ps) =
     (if has_result (op_kind p) then run I (E(getResult p := eval_op I E p)) ps
      else (op_kind p, map E (operands p)) # run I E ps)"

definition init_env :: "ty list \<Rightarrow> 'a tensor list \<Rightarrow> 'a env" where
  "init_env tys inputs v =
     (case v of
        BlockArg n \<Rightarrow>
          if n < length tys \<and> n < length inputs \<and> conforms (inputs ! n) (tys ! n)
          then Some (inputs ! n) else None
      | OpResult i \<Rightarrow> None)"

definition evaluate ::
  "'a interp \<Rightarrow> ty list \<Rightarrow> 'a tensor list \<Rightarrow> graph \<Rightarrow> (opkind \<times> 'a tensor option list) list" where
  "evaluate I tys inputs g = run I (init_env tys inputs) g"

section \<open>Example graphs\<close>

definition mk_op :: "nat \<Rightarrow> opkind \<Rightarrow> val list \<Rightarrow> ty \<Rightarrow> operation" where
  "mk_op i k vs t = \<lparr>op_id = i, op_kind = k, operands = vs, result_type = t, loc = i\<rparr>"

text \<open>transpose(transpose(x)), returned.\<close>

definition ex_tt :: graph where
  "ex_tt = [mk_op 1 Transpose [BlockArg 0] [3, 2],
            mk_op 2 Transpose [OpResult 1] [2, 3],
            mk_op 3 Return [OpResult 2] []]"

text \<open>reshape(reshape(x)), returned.\<close>

definition ex_rr :: graph where
  "ex_rr = [mk_op 1 Reshape [BlockArg 0] [2, 3],
            mk_op 2 Reshape [OpResult 1] [3, 2],
            mk_op 3 Return [OpResult 2] []]"

text \<open>add(transpose(x), y) and a reshape of a constant: no redundant pair.\<close>

definition ex_plain :: graph where
  "ex_plain = [mk_op 1 Transpose [BlockArg 0] [3, 2],
               mk_op 2 Add [OpResult 1, BlockArg 1] [3, 2],
               mk_op 3 Constant [] [6],
               mk_op 4 Reshape [OpResult 3] [2, 3],
               mk_op 5 Print [OpResult 4] [],
               mk_op 6 Return [OpResult 2] []]"

section \<open>Basic facts about graphs and the rewriter\<close>

lemma lookup_op_SomeD: "lookup_op g i = Some p \<Longrightarrow> p \<in> set g \<and> op_id p = i"
  unfolding lookup_op_def by (induction g) (auto split: if_splits)

lemma lookup_op_None: "lookup_op g i = None \<longleftrightarrow> i \<notin> ids g"
  unfolding lookup_op_def ids_def by (induction g) auto

lemma lookup_op_append:
  "lookup_op (xs @ ys) i = (case lookup_op xs i of Some p \<Rightarrow> Some p | None \<Rightarrow> lookup_op ys i)"
  unfolding lookup_op_def by (induction xs) auto

lemma ids_append [simp]: "ids (xs @ ys) = ids xs \<union> ids ys"
  by (auto simp: ids_def)

lemma ids_Cons [simp]: "ids (x # xs) = insert (op_id x) (ids xs)"
  by (auto simp: ids_def)

lemma ids_Nil [simp]: "ids [] = {}"
  by (auto simp: ids_def)

lemma in_ids: "p \<in> set g \<Longrightarrow> op_id p \<in> ids g"
  by (auto simp: ids_def)

lemma wf_ops_append:
  "wf_ops G U (xs @ ys) \<longleftrightarrow> wf_ops G U xs \<and> wf_ops (fold bind_result xs G) (U \<union> ids xs) ys"
  by (induction xs arbitrary: G U) auto

lemma wf_ops_disjoint: "wf_ops G U g \<Longrightarrow> ids g \<inter> U = {}"
  by (induction g arbitrary: G U) auto

lemma wf_ops_distinct: "wf_ops G U g \<Longrightarrow> distinct (map op_id g)"
proof (induction g arbitrary: G U)
  case Nil
  then show ?case by simp
next
  case (Cons p ps)
  from Cons.prems have "wf_ops (bind_result p G) (insert (op_id p) U) ps" by simp
  from wf_ops_disjoint[OF this] Cons.IH[OF this] show ?case by (auto simp: ids_def)
qed

lemma lookup_op_distinct:
  "distinct (map op_id g) \<Longrightarrow> p \<in> set g \<Longrightarrow> lookup_op g (op_id p) = Some p"
  unfolding lookup_op_def by (induction g) (auto simp: rev_image_eqI)

lemma ir_fold_addToWorklist [simp]: "ir (fold addToWorklist xs rw) = ir rw"
  by (induction xs arbitrary: rw) (auto simp: addToWorklist_def)

lemma worklist_fold_addToWorklist:
  "set (worklist (fold addToWorklist xs rw)) = set (worklist rw) \<union> set xs"
  by (induction xs arbitrary: rw) (auto simp: addToWorklist_def)

lemma ir_replaceAllUsesWith [simp]:
  "ir (replaceAllUsesWith a b rw) = map (rewire a b) (ir rw)"
  by (simp add: replaceAllUsesWith_def)

lemma ir_eraseOp [simp]: "ir (eraseOp p rw) = filter (\<lambda>q. op_id q \<noteq> op_id p) (ir rw)"
  by (simp add: eraseOp_def Let_def)

lemma op_id_rewire [simp]: "op_id (rewire a b q) = op_id q"
  and op_kind_rewire [simp]: "op_kind (rewire a b q) = op_kind q"
  and result_type_rewire [simp]: "result_type (rewire a b q) = result_type q"
  and operands_rewire [simp]: "operands (rewire a b q) = map (subst_val a b) (operands q)"
  by (simp_all add: rewire_def)

lemma ir_replaceOp [simp]:
  "ir (replaceOp p [v] rw) = map (rewire (getResult p) v) (filter (\<lambda>q. op_id q \<noteq> op_id p) (ir rw))"
  by (simp add: filter_map comp_def)

section \<open>A pattern that does not match changes nothing\<close>

text \<open>
  Claim C4.  When the operand of the operation has no defining operation (it is a block
  argument, which never has one) or its defining operation is not a transpose, the
  transpose pattern returns failure and hands back the rewriter state (graph and
  worklist) exactly as it received it; likewise the reshape pattern when the defining
  operation is absent or not a reshape.
\<close>

theorem no_match_is_failure_and_no_change:
  "((getDefiningOp (ir rw) (getOperand p) = None \<or>
     (\<exists>d. getDefiningOp (ir rw) (getOperand p) = Some d \<and> op_kind d \<noteq> Transpose))
    \<longrightarrow> SimplifyRedundantTranspose_matchAndRewrite p rw = (failure, rw)) \<and>
   ((getDefiningOp (ir rw) (getOperand p) = None \<or>
     (\<exists>d. getDefiningOp (ir rw) (getOperand p) = Some d \<and> op_kind d \<noteq> Reshape))
    \<longrightarrow> ReshapeReshapeOptPattern_matchAndRewrite p rw = (failure, rw)) \<and>
   (\<forall>n. getDefiningOp (ir rw) (BlockArg n) = None)"
  by (auto simp: SimplifyRedundantTranspose_matchAndRewrite_def
      ReshapeReshapeOptPattern_matchAndRewrite_def getDefiningOp_as_def getDefiningOp_def)

theorem no_match_is_failure_and_no_change_witness:
  "SimplifyRedundantTranspose_matchAndRewrite (mk_op 1 Transpose [BlockArg 0] [3, 2])
       \<lparr>ir = ex_plain, worklist = [1, 4]\<rparr> = (failure, \<lparr>ir = ex_plain, worklist = [1, 4]\<rparr>) \<and>
   ReshapeReshapeOptPattern_matchAndRewrite (mk_op 4 Reshape [OpResult 3] [2, 3])
       \<lparr>ir = ex_plain, worklist = [1, 4]\<rparr> = (failure, \<lparr>ir = ex_plain, worklist = [1, 4]\<rparr>)"
proof -
  let ?rw = "\<lparr>ir = ex_plain, worklist = [1, 4]\<rparr>"
  have a: "getDefiningOp (ir ?rw) (getOperand (mk_op 1 Transpose [BlockArg 0] [3, 2])) = None"
    by (simp add: getDefiningOp_def getOperand_def mk_op_def)
  have b: "getDefiningOp (ir ?rw) (getOperand (mk_op 4 Reshape [OpResult 3] [2, 3]))
             = Some (mk_op 3 Constant [] [6]) \<and> op_kind (mk_op 3 Constant [] [6]) \<noteq> Reshape"
    by (simp add: getDefiningOp_def getOperand_def mk_op_def ex_plain_def lookup_op_def)
  from a no_match_is_failure_and_no_change[of ?rw "mk_op 1 Transpose [BlockArg 0] [3, 2]"]
  have "SimplifyRedundantTranspose_matchAndRewrite (mk_op 1 Transpose [BlockArg 0] [3, 2]) ?rw
          = (failure, ?rw)" by blast
  moreover from b no_match_is_failure_and_no_change[of ?rw "mk_op 4 Reshape [OpResult 3] [2, 3]"]
  have "ReshapeReshapeOptPattern_matchAndRewrite (mk_op 4 Reshape [OpResult 3] [2, 3]) ?rw
          = (failure, ?rw)" by blast
  ultimately show ?thesis by simp
qed

section \<open>Well-formedness and the shape of a rewritten graph\<close>

definition tydom :: "tyenv \<Rightarrow> nat set \<Rightarrow> bool" where
  "tydom G U = (\<forall>i. G (OpResult i) \<noteq> None \<longrightarrow> i \<in> U)"

lemma tydom_args_env [simp]: "tydom (args_env tys) U"
  by (simp add: tydom_def args_env_def)

lemma tydom_bind_result: "tydom G U \<Longrightarrow> tydom (bind_result p G) (insert (op_id p) U)"
  by (auto simp: tydom_def bind_result_def getResult_def)

lemma tydom_fold: "tydom G U \<Longrightarrow> tydom (fold bind_result xs G) (U \<union> ids xs)"
proof (induction xs arbitrary: G U)
  case Nil
  then show ?case by simp
next
  case (Cons p ps)
  from Cons.IH[OF tydom_bind_result[OF Cons.prems, of p]] show ?case by simp
qed

lemma tydom_mono: "tydom G U \<Longrightarrow> U \<subseteq> V \<Longrightarrow> tydom G V"
  by (auto simp: tydom_def)

lemma wf_op_operands: "wf_op G p \<Longrightarrow> v \<in> set (operands p) \<Longrightarrow> G v \<noteq> None"
  by (auto simp: wf_op_def list_all_iff)

lemma wf_op_operand_ids:
  "wf_op G p \<Longrightarrow> tydom G U \<Longrightarrow> OpResult i \<in> set (operands p) \<Longrightarrow> i \<in> U"
  using wf_op_operands[of G p "OpResult i"] by (auto simp: tydom_def)

lemma wf_ops_operand_ids:
  "wf_ops G U g \<Longrightarrow> tydom G U \<Longrightarrow> q \<in> set g \<Longrightarrow> OpResult i \<in> set (operands q)
     \<Longrightarrow> i \<in> U \<union> ids g"
proof (induction g arbitrary: G U)
  case Nil
  then show ?case by simp
next
  case (Cons p ps)
  show ?case
  proof (cases "q = p")
    case True
    with Cons.prems wf_op_operand_ids[of G p U i] show ?thesis by simp
  next
    case False
    with Cons.prems have "q \<in> set ps" by simp
    from Cons.IH[OF _ tydom_bind_result[OF Cons.prems(2)] this Cons.prems(4)] Cons.prems(1)
    show ?thesis by auto
  qed
qed

lemma filter_other_ids: "i \<notin> ids xs \<Longrightarrow> filter (\<lambda>q. op_id q \<noteq> i) xs = xs"
  by (rule filter_True) (metis in_ids)

lemma filter_ids_decomp:
  "op_id p \<notin> ids pre \<Longrightarrow> op_id p \<notin> ids post \<Longrightarrow>
     filter (\<lambda>q. op_id q \<noteq> op_id p) (pre @ p # post) = pre @ post"
  by (simp add: filter_other_ids)

lemma rewire_ident: "a \<notin> set (operands q) \<Longrightarrow> rewire a b q = q"
proof -
  assume "a \<notin> set (operands q)"
  then have "map (subst_val a b) (operands q) = operands q"
    by (intro map_idI) (auto simp: subst_val_def)
  then show ?thesis by (simp add: rewire_def)
qed

lemma map_rewire_ident: "\<forall>q\<in>set xs. a \<notin> set (operands q) \<Longrightarrow> map (rewire a b) xs = xs"
  by (simp add: rewire_ident map_idI)

text \<open>The shape of a well-formed graph around one of its operations.\<close>

lemma wf_graph_split:
  assumes "wf_graph tys g" "p \<in> set g"
  obtains pre post where "g = pre @ p # post"
    "wf_ops (args_env tys) {} pre"
    "wf_op (type_env tys pre) p"
    "wf_ops (bind_result p (type_env tys pre)) (insert (op_id p) (ids pre)) post"
    "op_id p \<notin> ids pre" "op_id p \<notin> ids post" "ids pre \<inter> ids post = {}"
    "tydom (type_env tys pre) (ids pre)"
proof -
  from assms(2) obtain pre post where g: "g = pre @ p # post" by (auto dest: split_list)
  from assms(1) have w: "wf_ops (args_env tys) {} (pre @ p # post)"
    by (simp add: wf_graph_def g)
  then have 1: "wf_ops (args_env tys) {} pre" and 2: "wf_op (type_env tys pre) p"
    and 3: "wf_ops (bind_result p (type_env tys pre)) (insert (op_id p) (ids pre)) post"
    and 4: "op_id p \<notin> ids pre"
    by (simp_all add: wf_ops_append type_env_def)
  from wf_ops_disjoint[OF 3] have 5: "op_id p \<notin> ids post" "ids pre \<inter> ids post = {}" by auto
  have 6: "tydom (type_env tys pre) (ids pre)"
    using tydom_fold[of "args_env tys" "{}" pre] by (simp add: type_env_def)
  from g 1 2 3 4 5 6 show thesis by (rule that)
qed

lemma wf_graph_ids:
  assumes "wf_graph tys (pre @ p # post)"
  shows "op_id p \<notin> ids pre" "op_id p \<notin> ids post" "ids pre \<inter> ids post = {}"
    "distinct (map op_id (pre @ p # post))"
proof -
  from assms have w: "wf_ops (args_env tys) {} (pre @ p # post)" by (simp add: wf_graph_def)
  then have 3: "wf_ops (bind_result p (type_env tys pre)) (insert (op_id p) (ids pre)) post"
    and 4: "op_id p \<notin> ids pre"
    by (simp_all add: wf_ops_append type_env_def)
  from 4 show "op_id p \<notin> ids pre" .
  from wf_ops_disjoint[OF 3] show "op_id p \<notin> ids post" "ids pre \<inter> ids post = {}" by auto
  from wf_ops_distinct[OF w] show "distinct (map op_id (pre @ p # post))" .
qed

lemma wf_graph_prefix: "wf_graph tys (xs @ ys) \<Longrightarrow> wf_graph tys xs"
  by (simp add: wf_graph_def wf_ops_append)

lemma wf_graph_operand_ids:
  assumes "wf_graph tys g" "q \<in> set g" "OpResult i \<in> set (operands q)"
  shows "i \<in> ids g"
  using wf_ops_operand_ids[of "args_env tys" "{}" g q i] assms by (simp add: wf_graph_def)

lemma wf_graph_operand_before:
  assumes "wf_graph tys (pre @ p # post)" "OpResult i \<in> set (operands p)"
  shows "i \<in> ids pre"
proof -
  from assms(1) have "wf_op (type_env tys pre) p"
    by (simp add: wf_graph_def wf_ops_append type_env_def)
  moreover have "tydom (type_env tys pre) (ids pre)"
    using tydom_fold[of "args_env tys" "{}" pre] by (simp add: type_env_def)
  ultimately show ?thesis using assms(2) by (rule wf_op_operand_ids)
qed

lemma wf_graph_unused_before:
  assumes "wf_graph tys (pre @ p # post)" "q \<in> set pre" "i \<notin> ids pre"
  shows "OpResult i \<notin> set (operands q)"
  using wf_graph_operand_ids[OF wf_graph_prefix[OF assms(1)] assms(2)] assms(3) by blast

lemma wf_ops_arity:
  "wf_ops G U g \<Longrightarrow> q \<in> set g \<Longrightarrow> op_kind q = Transpose \<or> op_kind q = Reshape
     \<Longrightarrow> operands q = [getOperand q]"
proof (induction g arbitrary: G U)
  case Nil
  then show ?case by simp
next
  case (Cons p ps)
  show ?case
  proof (cases "q = p")
    case True
    with Cons.prems have "length (operands q) = 1" by (auto simp: wf_op_def)
    then show ?thesis by (cases "operands q") (auto simp: getOperand_def)
  next
    case False
    with Cons.prems Cons.IH[of "bind_result p G" "insert (op_id p) U"] show ?thesis by auto
  qed
qed

lemma wf_graph_arity:
  "wf_graph tys g \<Longrightarrow> q \<in> set g \<Longrightarrow> op_kind q = Transpose \<or> op_kind q = Reshape
     \<Longrightarrow> operands q = [getOperand q]"
  unfolding wf_graph_def by (rule wf_ops_arity)

lemma lookup_op_prefix: "i \<in> ids xs \<Longrightarrow> lookup_op (xs @ ys) i = lookup_op xs i"
  using lookup_op_None[of xs i] by (auto simp: lookup_op_append split: option.splits)

lemma lookup_op_suffix: "i \<notin> ids xs \<Longrightarrow> lookup_op (xs @ ys) i = lookup_op ys i"
  using lookup_op_None[of xs i] by (auto simp: lookup_op_append split: option.splits)

lemma fold_max_ge: "(a::nat) \<le> fold max xs a \<and> (\<forall>x\<in>set xs. x \<le> fold max xs a)"
proof (induction xs arbitrary: a)
  case Nil
  then show ?case by simp
next
  case (Cons y ys)
  from Cons.IH[of "max y a"] show ?case by auto
qed

lemma fresh_id_greater: "q \<in> set g \<Longrightarrow> op_id q < fresh_id g"
  using fold_max_ge[of 0 "map op_id g"] by (auto simp: fresh_id_def less_Suc_eq_le)

lemma fresh_id_notin: "fresh_id g \<notin> ids g"
  using fresh_id_greater[of _ g] by (fastforce simp: ids_def)

lemma insertBefore_split:
  "op_id p \<notin> ids pre \<Longrightarrow> insertBefore (op_id p) n (pre @ p # post) = pre @ n # p # post"
proof -
  assume "op_id p \<notin> ids pre"
  then have *: "\<forall>q\<in>set pre. op_id q \<noteq> op_id p" by (metis in_ids)
  then have "takeWhile (\<lambda>q. op_id q \<noteq> op_id p) (pre @ p # post) = pre"
    by (simp add: takeWhile_append2)
  moreover from * have "dropWhile (\<lambda>q. op_id q \<noteq> op_id p) (pre @ p # post) = p # post"
    by (simp add: dropWhile_append2)
  ultimately show ?thesis by (simp add: insertBefore_def)
qed

text \<open>A transpose of a transpose, or a reshape of a reshape, in a well-formed graph.\<close>

lemma defining_op_before:
  assumes wf: "wf_graph tys (pre @ p # post)"
    and k: "op_kind p = Transpose \<or> op_kind p = Reshape"
    and d: "getDefiningOp (pre @ p # post) (getOperand p) = Some inner"
  shows "inner \<in> set pre" "operands p = [getResult inner]" "getOperand p = getResult inner"
    "lookup_op pre (op_id inner) = Some inner"
proof -
  have ar: "operands p = [getOperand p]" using wf k by (auto intro: wf_graph_arity)
  from d obtain i where i: "getOperand p = OpResult i"
    and l: "lookup_op (pre @ p # post) i = Some inner"
    by (auto simp: getDefiningOp_def split: val.splits)
  from lookup_op_SomeD[OF l] have ii: "op_id inner = i" by simp
  have "OpResult i \<in> set (operands p)" using ar i by (metis list.set_intros(1))
  from wf_graph_operand_before[OF wf this] have ip: "i \<in> ids pre" .
  with l have lp: "lookup_op pre i = Some inner" by (simp add: lookup_op_prefix)
  from lookup_op_SomeD[OF lp] show "inner \<in> set pre" by simp
  from i ii show "getOperand p = getResult inner" by (simp add: getResult_def)
  with ar show "operands p = [getResult inner]" by simp
  from lp ii show "lookup_op pre (op_id inner) = Some inner" by simp
qed

lemma inner_operand_facts:
  assumes wf: "wf_graph tys (pre @ p # post)" and inn: "inner \<in> set pre"
    and k: "op_kind inner = Transpose \<or> op_kind inner = Reshape"
  shows "operands inner = [getOperand inner]" "getOperand inner \<noteq> getResult p"
    "\<forall>q\<in>set post. getOperand inner \<noteq> getResult q"
    "getOperand inner \<noteq> OpResult (fresh_id (pre @ p # post))"
proof -
  from inn have ing: "inner \<in> set (pre @ p # post)" by simp
  show ar: "operands inner = [getOperand inner]" using wf ing k by (rule wf_graph_arity)
  have "\<And>i. getOperand inner = OpResult i \<Longrightarrow> i \<in> ids pre"
  proof -
    fix i assume "getOperand inner = OpResult i"
    with ar have "OpResult i \<in> set (operands inner)" by (metis list.set_intros(1))
    from wf_graph_operand_ids[OF wf_graph_prefix[OF wf] inn this] show "i \<in> ids pre" .
  qed
  note * = this
  from * wf_graph_ids(1)[OF wf] show "getOperand inner \<noteq> getResult p"
    by (auto simp: getResult_def)
  from * wf_graph_ids(3)[OF wf] show "\<forall>q\<in>set post. getOperand inner \<noteq> getResult q"
    by (auto simp: getResult_def dest: in_ids)
  from * fresh_id_notin[of "pre @ p # post"]
  show "getOperand inner \<noteq> OpResult (fresh_id (pre @ p # post))" by auto
qed

lemma filter_map_rewire [simp]:
  "filter (\<lambda>q. op_id q \<noteq> i) (map (rewire a b) xs) =
     map (rewire a b) (filter (\<lambda>q. op_id q \<noteq> i) xs)"
  by (induction xs) auto

text \<open>The graph after the transpose rewrite and after the reshape rewrite.\<close>

lemma replaceOp_split:
  assumes wf: "wf_graph tys (pre @ p # post)" and g: "ir rw = pre @ p # post"
  shows "ir (replaceOp p [x] rw) = pre @ map (rewire (getResult p) x) post"
proof -
  have "\<forall>q\<in>set pre. getResult p \<notin> set (operands q)"
    using wf_graph_unused_before[OF wf _ wf_graph_ids(1)[OF wf]] by (simp add: getResult_def)
  then have "map (rewire (getResult p) x) pre = pre" by (rule map_rewire_ident)
  then show ?thesis
    using wf_graph_ids(1,2)[OF wf] by (simp add: g filter_other_ids)
qed

definition new_reshape :: "graph \<Rightarrow> operation \<Rightarrow> val \<Rightarrow> operation" where
  "new_reshape g p x =
     \<lparr>op_id = fresh_id g, op_kind = Reshape, operands = [x], result_type = result_type p,
      loc = loc p\<rparr>"

lemma replaceOpWithNewOp_split:
  assumes wf: "wf_graph tys (pre @ p # post)" and g: "ir rw = pre @ p # post"
    and x: "x \<noteq> getResult p"
  shows "ir (replaceOpWithNewOp Reshape p (result_type p) [x] rw) =
           pre @ new_reshape (ir rw) p x #
           map (rewire (getResult p) (getResult (new_reshape (ir rw) p x))) post"
proof -
  let ?n = "new_reshape (ir rw) p x"
  let ?s = "rewire (getResult p) (getResult ?n)"
  have pre: "\<forall>q\<in>set pre. getResult p \<notin> set (operands q)"
    using wf_graph_unused_before[OF wf _ wf_graph_ids(1)[OF wf]] by (simp add: getResult_def)
  have 1: "map ?s pre = pre" using pre by (rule map_rewire_ident)
  have 2: "?s ?n = ?n" using x by (intro rewire_ident) (simp add: new_reshape_def)
  have nid: "op_id ?n \<noteq> op_id p"
    using fresh_id_greater[of p "ir rw"] by (simp add: new_reshape_def g)
  have "ir (replaceOpWithNewOp Reshape p (result_type p) [x] rw) =
          map ?s (filter (\<lambda>q. op_id q \<noteq> op_id p) (insertBefore (op_id p) ?n (ir rw)))"
    by (simp add: replaceOpWithNewOp_def Let_def new_reshape_def addToWorklist_def)
  also have "insertBefore (op_id p) ?n (ir rw) = pre @ ?n # p # post"
    using wf_graph_ids(1)[OF wf] by (simp add: g insertBefore_split)
  also have "filter (\<lambda>q. op_id q \<noteq> op_id p) (pre @ ?n # p # post) = pre @ ?n # post"
    using wf_graph_ids(1,2)[OF wf] nid by (simp add: filter_other_ids)
  also have "map ?s (pre @ ?n # post) = pre @ ?n # map ?s post"
    using 1 2 by simp
  finally show ?thesis .
qed

lemma ids_map_rewire [simp]: "ids (map (rewire a b) xs) = ids xs"
  by (induction xs) auto

lemma lookup_op_map_rewire:
  "lookup_op (map (rewire a b) g) i = map_option (rewire a b) (lookup_op g i)"
  unfolding lookup_op_def by (induction g) auto

lemma worklist_eraseOp:
  "set (worklist (eraseOp p rw)) = (set (worklist rw) \<union> set (producers (ir rw) p)) - {op_id p}"
  by (simp add: eraseOp_def Let_def worklist_fold_addToWorklist)

lemma worklist_replaceAllUsesWith:
  "set (worklist (replaceAllUsesWith a b rw)) = set (worklist rw) \<union> op_id ` set (users_of (ir rw) a)"
  by (simp add: replaceAllUsesWith_def worklist_fold_addToWorklist)

lemma producers_single:
  "operands p = [OpResult i] \<Longrightarrow> lookup_op g i = Some d \<Longrightarrow> producers g p = [op_id d]"
  by (simp add: producers_def getDefiningOp_def)

lemma isOpTriviallyDead_iff:
  "has_result (op_kind p) \<Longrightarrow> isOpTriviallyDead g p \<longleftrightarrow> (\<forall>q\<in>set g. getResult p \<notin> set (operands q))"
  by (auto simp: isOpTriviallyDead_def users_of_def filter_empty_conv)

section \<open>The transpose pattern on a transpose of a transpose\<close>

text \<open>
  Claim C2.  On a transpose \<open>p\<close> whose operand is defined by a transpose \<open>inner\<close>, the
  pattern succeeds.  The new graph is the old one without \<open>p\<close> and with every use of the
  result of \<open>p\<close> rewired to the operand of \<open>inner\<close>: the identities are those of the old
  graph minus that of \<open>p\<close> (one operation erased, none created), no use of the result of
  \<open>p\<close> is left, and \<open>inner\<close> is still there, queued for the driver.  The driver's next look
  at \<open>inner\<close> erases it when nothing uses it, and it is not dead otherwise.
\<close>

theorem transpose_of_transpose_is_replaced_by_inner_operand:
  assumes wf: "wf_graph tys (ir rw)" and p: "p \<in> set (ir rw)"
    and k: "op_kind p = Transpose"
    and d: "getDefiningOp (ir rw) (getOperand p) = Some inner"
    and ki: "op_kind inner = Transpose"
  shows "\<exists>rw'. SimplifyRedundantTranspose_matchAndRewrite p rw = (success, rw') \<and>
           ir rw' = map (rewire (getResult p) (getOperand inner))
                      (filter (\<lambda>q. op_id q \<noteq> op_id p) (ir rw)) \<and>
           ids (ir rw') = ids (ir rw) - {op_id p} \<and>
           length (ir rw') + 1 = length (ir rw) \<and>
           (\<forall>q\<in>set (ir rw'). getResult p \<notin> set (operands q)) \<and>
           inner \<in> set (ir rw') \<and> op_id inner \<in> set (worklist rw') \<and>
           (users_of (ir rw') (getResult inner) = [] \<longrightarrow>
              ir (process ps (op_id inner) rw') =
                filter (\<lambda>q. op_id q \<noteq> op_id inner) (ir rw')) \<and>
           (users_of (ir rw') (getResult inner) \<noteq> [] \<longrightarrow>
              \<not> isOpTriviallyDead (ir rw') inner)"
proof -
  let ?x = "getOperand inner"
  let ?rw' = "replaceOp p [?x] rw"
  from p obtain pre post where g: "ir rw = pre @ p # post" by (auto dest: split_list)
  from wf have wf': "wf_graph tys (pre @ p # post)" by (simp add: g)
  note idf = wf_graph_ids[OF wf']
  from d have d': "getDefiningOp (pre @ p # post) (getOperand p) = Some inner" by (simp add: g)
  note df = defining_op_before[OF wf' disjI1[OF k] d']
  note xf = inner_operand_facts[OF wf' df(1) disjI1[OF ki]]
  have shape: "ir ?rw' = pre @ map (rewire (getResult p) ?x) post"
    using wf' g by (rule replaceOp_split)
  have 1: "SimplifyRedundantTranspose_matchAndRewrite p rw = (success, ?rw')"
    using d ki by (simp add: SimplifyRedundantTranspose_matchAndRewrite_def getDefiningOp_as_def)
  have 2: "ir ?rw' = map (rewire (getResult p) ?x) (filter (\<lambda>q. op_id q \<noteq> op_id p) (ir rw))"
    by simp
  have 3: "ids (ir ?rw') = ids (ir rw) - {op_id p}"
    unfolding shape g using idf(1,2) by auto
  have 4: "length (ir ?rw') + 1 = length (ir rw)" unfolding shape g by simp
  have 5: "\<forall>q\<in>set (ir ?rw'). getResult p \<notin> set (operands q)"
  proof
    fix q assume "q \<in> set (ir ?rw')"
    then consider "q \<in> set pre" | q' where "q' \<in> set post" "q = rewire (getResult p) ?x q'"
      unfolding shape by auto
    then show "getResult p \<notin> set (operands q)"
    proof cases
      case 1
      from wf_graph_unused_before[OF wf' 1 idf(1)] show ?thesis by (simp add: getResult_def)
    next
      case 2
      with xf(2) show ?thesis by (auto simp: subst_val_def)
    qed
  qed
  have 6: "inner \<in> set (ir ?rw')" unfolding shape using df(1) by simp
  have ne: "op_id inner \<noteq> op_id p" using df(1) idf(1) by (auto dest: in_ids)
  have "lookup_op (ir rw) (op_id inner) = Some inner"
    using df(4) df(1) by (simp add: g lookup_op_prefix in_ids)
  then have "producers (map (rewire (getResult p) ?x) (ir rw)) p = [op_id inner]"
    using df(2) by (intro producers_single[where d = "rewire (getResult p) ?x inner", simplified])
      (auto simp: getResult_def lookup_op_map_rewire)
  then have 7: "op_id inner \<in> set (worklist ?rw')"
    using ne by (simp add: worklist_eraseOp)
  have l: "lookup_op (ir ?rw') (op_id inner) = Some inner"
    unfolding shape using df(1,4) by (simp add: lookup_op_prefix in_ids)
  have 8: "users_of (ir ?rw') (getResult inner) = [] \<longrightarrow>
             ir (process ps (op_id inner) ?rw') =
               filter (\<lambda>q. op_id q \<noteq> op_id inner) (ir ?rw')"
    using l ki by (simp add: process_def isOpTriviallyDead_def has_result_def del: replaceOp.simps)
  have 9: "users_of (ir ?rw') (getResult inner) \<noteq> [] \<longrightarrow> \<not> isOpTriviallyDead (ir ?rw') inner"
    by (simp add: isOpTriviallyDead_def)
  from 1 2 3 4 5 6 7 8 9 show ?thesis by blast
qed

definition ex_tt_rw :: rewriter where
  "ex_tt_rw = \<lparr>ir = ex_tt, worklist = [2, 3]\<rparr>"

lemmas ex_defs = mk_op_def ex_tt_def ex_rr_def ex_plain_def ex_tt_rw_def

lemmas eval_defs = wf_graph_def wf_op_def args_env_def bind_result_def getOperand_def
  getResult_def has_result_def getDefiningOp_def lookup_op_def

theorem transpose_of_transpose_is_replaced_by_inner_operand_witness:
  "wf_graph [[2, 3]] (ir ex_tt_rw) \<and>
   (\<exists>rw'. SimplifyRedundantTranspose_matchAndRewrite (mk_op 2 Transpose [OpResult 1] [2, 3])
            ex_tt_rw = (success, rw') \<and>
          ids (ir rw') = ids (ir ex_tt_rw) - {2} \<and>
          mk_op 1 Transpose [BlockArg 0] [3, 2] \<in> set (ir rw') \<and>
          1 \<in> set (worklist rw'))"
proof -
  let ?p = "mk_op 2 Transpose [OpResult 1] [2, 3]"
  let ?inner = "mk_op 1 Transpose [BlockArg 0] [3, 2]"
  have wf: "wf_graph [[2, 3]] (ir ex_tt_rw)" by (simp add: ex_defs eval_defs)
  have p: "?p \<in> set (ir ex_tt_rw)" by (simp add: ex_defs)
  have k: "op_kind ?p = Transpose" "op_kind ?inner = Transpose" by (simp_all add: ex_defs)
  have d: "getDefiningOp (ir ex_tt_rw) (getOperand ?p) = Some ?inner"
    by (simp add: ex_defs eval_defs)
  from transpose_of_transpose_is_replaced_by_inner_operand[OF wf p k(1) d k(2), of canonicalization_patterns]
  obtain rw' where "SimplifyRedundantTranspose_matchAndRewrite ?p ex_tt_rw = (success, rw')"
    "ids (ir rw') = ids (ir ex_tt_rw) - {op_id ?p}" "?inner \<in> set (ir rw')"
    "op_id ?inner \<in> set (worklist rw')" by blast
  with wf show ?thesis by (auto simp: mk_op_def)
qed

lemma reshape_match:
  "getDefiningOp (ir rw) (getOperand p) = Some inner \<Longrightarrow> op_kind inner = Reshape \<Longrightarrow>
     ReshapeReshapeOptPattern_matchAndRewrite p rw =
       (success, replaceOpWithNewOp Reshape p (result_type p) [getOperand inner] rw)"
  by (simp add: ReshapeReshapeOptPattern_matchAndRewrite_def getDefiningOp_as_def)

lemma new_reshape_simps [simp]:
  "op_id (new_reshape g p x) = fresh_id g" "op_kind (new_reshape g p x) = Reshape"
  "operands (new_reshape g p x) = [x]" "result_type (new_reshape g p x) = result_type p"
  "loc (new_reshape g p x) = loc p"
  by (simp_all add: new_reshape_def)

section \<open>The reshape pattern on a reshape of a reshape\<close>

text \<open>
  Claim C3.  On a reshape \<open>p\<close> whose operand is defined by a reshape \<open>inner\<close>, the pattern
  succeeds.  A reshape \<open>n\<close> with an identity that the graph did not have, the result
  type of \<open>p\<close> and the operand of \<open>inner\<close> as its only operand stands where \<open>p\<close> stood;
  \<open>p\<close> is gone and the operations after it use the result of \<open>n\<close> where they used the
  result of \<open>p\<close>.
\<close>

theorem reshape_of_reshape_is_replaced_by_new_reshape:
  assumes wf: "wf_graph tys (ir rw)" and p: "p \<in> set (ir rw)"
    and k: "op_kind p = Reshape"
    and d: "getDefiningOp (ir rw) (getOperand p) = Some inner"
    and ki: "op_kind inner = Reshape"
  shows "\<exists>rw' n pre post.
           ReshapeReshapeOptPattern_matchAndRewrite p rw = (success, rw') \<and>
           op_id n \<notin> ids (ir rw) \<and> op_kind n = Reshape \<and>
           result_type n = result_type p \<and> operands n = [getOperand inner] \<and>
           ir rw = pre @ p # post \<and>
           ir rw' = pre @ n # map (rewire (getResult p) (getResult n)) post \<and>
           op_id p \<notin> ids (ir rw') \<and>
           (\<forall>q\<in>set (ir rw'). getResult p \<notin> set (operands q))"
proof -
  let ?x = "getOperand inner"
  let ?rw' = "replaceOpWithNewOp Reshape p (result_type p) [?x] rw"
  let ?n = "new_reshape (ir rw) p ?x"
  from p obtain pre post where g: "ir rw = pre @ p # post" by (auto dest: split_list)
  from wf have wf': "wf_graph tys (pre @ p # post)" by (simp add: g)
  note idf = wf_graph_ids[OF wf']
  from d have d': "getDefiningOp (pre @ p # post) (getOperand p) = Some inner" by (simp add: g)
  note df = defining_op_before[OF wf' disjI2[OF k] d']
  note xf = inner_operand_facts[OF wf' df(1) disjI2[OF ki]]
  have shape: "ir ?rw' = pre @ ?n # map (rewire (getResult p) (getResult ?n)) post"
    using wf' g xf(2) by (rule replaceOpWithNewOp_split)
  have 1: "ReshapeReshapeOptPattern_matchAndRewrite p rw = (success, ?rw')"
    using d ki by (rule reshape_match)
  have 2: "op_id ?n \<notin> ids (ir rw)" using fresh_id_notin[of "ir rw"] by simp
  have np: "op_id ?n \<noteq> op_id p" using 2 p by (auto dest: in_ids)
  have 3: "op_id p \<notin> ids (ir ?rw')" unfolding shape using idf(1,2) np by simp
  have 4: "\<forall>q\<in>set (ir ?rw'). getResult p \<notin> set (operands q)"
  proof
    fix q assume "q \<in> set (ir ?rw')"
    then consider "q \<in> set pre" | "q = ?n"
      | q' where "q' \<in> set post" "q = rewire (getResult p) (getResult ?n) q'"
      unfolding shape by auto
    then show "getResult p \<notin> set (operands q)"
    proof cases
      case 1
      from wf_graph_unused_before[OF wf' 1 idf(1)] show ?thesis by (simp add: getResult_def)
    next
      case 2
      with xf(2) show ?thesis by simp
    next
      case 3
      with np show ?thesis by (auto simp: subst_val_def getResult_def)
    qed
  qed
  from 1 2 3 4 g shape show ?thesis
    by (intro exI[of _ ?rw'] exI[of _ ?n] exI[of _ pre] exI[of _ post]) simp
qed

definition ex_rr_rw :: rewriter where
  "ex_rr_rw = \<lparr>ir = ex_rr, worklist = [2, 3]\<rparr>"

theorem reshape_of_reshape_is_replaced_by_new_reshape_witness:
  "wf_graph [[6]] (ir ex_rr_rw) \<and>
   (\<exists>rw' n pre post.
      ReshapeReshapeOptPattern_matchAndRewrite (mk_op 2 Reshape [OpResult 1] [3, 2]) ex_rr_rw
        = (success, rw') \<and>
      op_id n \<notin> ids (ir ex_rr_rw) \<and> op_kind n = Reshape \<and> result_type n = [3, 2] \<and>
      operands n = [BlockArg 0] \<and>
      ir rw' = pre @ n # map (rewire (OpResult 2) (getResult n)) post)"
proof -
  let ?p = "mk_op 2 Reshape [OpResult 1] [3, 2]"
  let ?inner = "mk_op 1 Reshape [BlockArg 0] [2, 3]"
  have wf: "wf_graph [[6]] (ir ex_rr_rw)" by (simp add: ex_defs ex_rr_rw_def eval_defs)
  have p: "?p \<in> set (ir ex_rr_rw)" by (simp add: ex_defs ex_rr_rw_def)
  have k: "op_kind ?p = Reshape" "op_kind ?inner = Reshape" by (simp_all add: ex_defs)
  have d: "getDefiningOp (ir ex_rr_rw) (getOperand ?p) = Some ?inner"
    by (simp add: ex_defs ex_rr_rw_def eval_defs)
  from reshape_of_reshape_is_replaced_by_new_reshape[OF wf p k(1) d k(2)]
  obtain rw' n pre post where
    "ReshapeReshapeOptPattern_matchAndRewrite ?p ex_rr_rw = (success, rw')"
    "op_id n \<notin> ids (ir ex_rr_rw)" "op_kind n = Reshape"
    "result_type n = result_type ?p" "operands n = [getOperand ?inner]"
    "ir rw' = pre @ n # map (rewire (getResult ?p) (getResult n)) post" by blast
  with wf show ?thesis by (auto simp: mk_op_def getResult_def getOperand_def)
qed

section \<open>What the reshape rewrite creates and erases\<close>


lemma worklist_replaceOpWithNewOp:
  "set (worklist (replaceOpWithNewOp k p t vs rw)) =
     (let n = \<lparr>op_id = fresh_id (ir rw), op_kind = k, operands = vs, result_type = t, loc = loc p\<rparr>;
          g1 = insertBefore (op_id p) n (ir rw)
      in (set (worklist rw) \<union> {fresh_id (ir rw)} \<union> op_id ` set (users_of g1 (getResult p)) \<union>
          set (producers (map (rewire (getResult p) (getResult n)) g1) p)) - {op_id p})"
  by (auto simp: replaceOpWithNewOp_def Let_def worklist_eraseOp worklist_replaceAllUsesWith
      addToWorklist_def)







text \<open>
  reshape(reshape(reshape(x))) where the middle reshape is also printed: after the rewrite
  of the outer reshape, the middle one is used by the print, and the driver's visit of it
  replaces it by a new reshape of \<open>x\<close>.
\<close>

definition ex_rrr_shared_rw :: rewriter where
  "ex_rrr_shared_rw =
     \<lparr>ir = [mk_op 1 Reshape [BlockArg 0] [2, 3],
            mk_op 2 Reshape [OpResult 1] [3, 2],
            mk_op 3 Reshape [OpResult 2] [6],
            mk_op 4 Print [OpResult 2] [],
            mk_op 5 Return [OpResult 3] []],
      worklist = [3, 4, 5]\<rparr>"

lemma used_inner_reshape_is_rewritten_example:
  "wf_graph [[6]] (ir ex_rrr_shared_rw) \<and>
   users_of (ir (snd (ReshapeReshapeOptPattern_matchAndRewrite (mk_op 3 Reshape [OpResult 2] [6])
                       ex_rrr_shared_rw))) (OpResult 2) =
     [mk_op 4 Print [OpResult 2] []] \<and>
   ir (process canonicalization_patterns 2
        (snd (ReshapeReshapeOptPattern_matchAndRewrite (mk_op 3 Reshape [OpResult 2] [6])
               ex_rrr_shared_rw))) =
     [mk_op 1 Reshape [BlockArg 0] [2, 3],
      \<lparr>op_id = 7, op_kind = Reshape, operands = [BlockArg 0], result_type = [3, 2], loc = 2\<rparr>,
      \<lparr>op_id = 6, op_kind = Reshape, operands = [OpResult 1], result_type = [6], loc = 3\<rparr>,
      mk_op 4 Print [OpResult 7] [],
      mk_op 5 Return [OpResult 6] []]"
  by code_simp

section \<open>A shared inner transpose\<close>

text \<open>transpose(transpose(x)) where the inner transpose is also printed.\<close>

definition ex_tt_shared :: graph where
  "ex_tt_shared = [mk_op 1 Transpose [BlockArg 0] [3, 2],
                   mk_op 2 Transpose [OpResult 1] [2, 3],
                   mk_op 3 Print [OpResult 1] [],
                   mk_op 4 Return [OpResult 2] []]"

definition ex_tt_shared_rw :: rewriter where
  "ex_tt_shared_rw = \<lparr>ir = ex_tt_shared, worklist = [2, 3, 4]\<rparr>"

text \<open>
  Claim C10.  When the inner transpose has a user \<open>u\<close> other than the matched transpose
  \<open>p\<close>, the pattern still succeeds; the inner transpose stays in the graph, \<open>u\<close> still
  uses it, so the cleanup does not take it for dead; only the uses of the result of \<open>p\<close>
  are rewired, every operation without such a use is kept as it was.
\<close>

theorem shared_inner_transpose_is_kept:
  assumes wf: "wf_graph tys (ir rw)" and p: "p \<in> set (ir rw)"
    and k: "op_kind p = Transpose"
    and d: "getDefiningOp (ir rw) (getOperand p) = Some inner"
    and ki: "op_kind inner = Transpose"
    and u: "u \<in> set (ir rw)" "op_id u \<noteq> op_id p" "getResult inner \<in> set (operands u)"
  shows "\<exists>rw'. SimplifyRedundantTranspose_matchAndRewrite p rw = (success, rw') \<and>
           inner \<in> set (ir rw') \<and>
           rewire (getResult p) (getOperand inner) u \<in> set (ir rw') \<and>
           getResult inner \<in> set (operands (rewire (getResult p) (getOperand inner) u)) \<and>
           \<not> isOpTriviallyDead (ir rw') inner \<and>
           (\<forall>q\<in>set (ir rw). op_id q \<noteq> op_id p \<and> getResult p \<notin> set (operands q) \<longrightarrow>
              q \<in> set (ir rw')) \<and>
           (\<forall>q\<in>set (ir rw'). getResult p \<notin> set (operands q))"
proof -
  let ?x = "getOperand inner"
  let ?rw' = "replaceOp p [?x] rw"
  let ?s = "rewire (getResult p) ?x"
  from p obtain pre post where g: "ir rw = pre @ p # post" by (auto dest: split_list)
  from wf have wf': "wf_graph tys (pre @ p # post)" by (simp add: g)
  note idf = wf_graph_ids[OF wf']
  from d have d': "getDefiningOp (pre @ p # post) (getOperand p) = Some inner" by (simp add: g)
  note df = defining_op_before[OF wf' disjI1[OF k] d']
  note xf = inner_operand_facts[OF wf' df(1) disjI1[OF ki]]
  have shape: "ir ?rw' = pre @ map ?s post"
    using wf' g by (rule replaceOp_split)
  have pre: "\<forall>q\<in>set pre. getResult p \<notin> set (operands q)"
    using wf_graph_unused_before[OF wf' _ idf(1)] by (simp add: getResult_def)
  have 1: "SimplifyRedundantTranspose_matchAndRewrite p rw = (success, ?rw')"
    using d ki by (simp add: SimplifyRedundantTranspose_matchAndRewrite_def getDefiningOp_as_def)
  have 2: "inner \<in> set (ir ?rw')" unfolding shape using df(1) by simp
  have all: "\<And>q. q \<in> set (ir rw) \<Longrightarrow> op_id q \<noteq> op_id p \<Longrightarrow> ?s q \<in> set (ir ?rw')"
  proof -
    fix q assume q: "q \<in> set (ir rw)" "op_id q \<noteq> op_id p"
    then consider "q \<in> set pre" | "q \<in> set post" by (auto simp: g)
    then show "?s q \<in> set (ir ?rw')"
    proof cases
      case 1
      with pre have "?s q = q" by (intro rewire_ident) simp
      with 1 show ?thesis unfolding shape by simp
    next
      case 2
      then show ?thesis unfolding shape by simp
    qed
  qed
  have 3: "?s u \<in> set (ir ?rw')" using u(1,2) by (rule all)
  have ne: "getResult inner \<noteq> getResult p"
    using df(1) idf(1) by (auto simp: getResult_def dest: in_ids)
  have 4: "getResult inner \<in> set (operands (?s u))"
    using u(3) ne by (force simp: subst_val_def)
  have 5: "\<not> isOpTriviallyDead (ir ?rw') inner"
    unfolding isOpTriviallyDead_def users_of_def filter_empty_conv using 3 4 by blast
  have 6: "\<forall>q\<in>set (ir rw). op_id q \<noteq> op_id p \<and> getResult p \<notin> set (operands q) \<longrightarrow>
             q \<in> set (ir ?rw')"
  proof (intro ballI impI)
    fix q assume q: "q \<in> set (ir rw)" "op_id q \<noteq> op_id p \<and> getResult p \<notin> set (operands q)"
    with all have "?s q \<in> set (ir ?rw')" by blast
    moreover from q have "?s q = q" by (intro rewire_ident) simp
    ultimately show "q \<in> set (ir ?rw')" by simp
  qed
  have 7: "\<forall>q\<in>set (ir ?rw'). getResult p \<notin> set (operands q)"
  proof
    fix q assume "q \<in> set (ir ?rw')"
    then consider "q \<in> set pre" | q' where "q' \<in> set post" "q = ?s q'"
      unfolding shape by auto
    then show "getResult p \<notin> set (operands q)"
    proof cases
      case 1
      with pre show ?thesis by simp
    next
      case 2
      with xf(2) show ?thesis by (auto simp: subst_val_def)
    qed
  qed
  from 1 2 3 4 5 6 7 show ?thesis by blast
qed

theorem shared_inner_transpose_is_kept_witness:
  "wf_graph [[2, 3]] (ir ex_tt_shared_rw) \<and>
   (\<exists>rw'. SimplifyRedundantTranspose_matchAndRewrite (mk_op 2 Transpose [OpResult 1] [2, 3])
            ex_tt_shared_rw = (success, rw') \<and>
          mk_op 1 Transpose [BlockArg 0] [3, 2] \<in> set (ir rw') \<and>
          mk_op 3 Print [OpResult 1] [] \<in> set (ir rw') \<and>
          \<not> isOpTriviallyDead (ir rw') (mk_op 1 Transpose [BlockArg 0] [3, 2]))"
proof -
  let ?p = "mk_op 2 Transpose [OpResult 1] [2, 3]"
  let ?inner = "mk_op 1 Transpose [BlockArg 0] [3, 2]"
  let ?u = "mk_op 3 Print [OpResult 1] []"
  have wf: "wf_graph [[2, 3]] (ir ex_tt_shared_rw)"
    by (simp add: ex_defs ex_tt_shared_rw_def ex_tt_shared_def eval_defs)
  have p: "?p \<in> set (ir ex_tt_shared_rw)" and u: "?u \<in> set (ir ex_tt_shared_rw)"
    by (simp_all add: ex_defs ex_tt_shared_rw_def ex_tt_shared_def)
  have k: "op_kind ?p = Transpose" "op_kind ?inner = Transpose" by (simp_all add: ex_defs)
  have d: "getDefiningOp (ir ex_tt_shared_rw) (getOperand ?p) = Some ?inner"
    by (simp add: ex_defs ex_tt_shared_rw_def ex_tt_shared_def eval_defs)
  have un: "op_id ?u \<noteq> op_id ?p" "getResult ?inner \<in> set (operands ?u)"
    by (simp_all add: mk_op_def getResult_def)
  have r: "rewire (getResult ?p) (getOperand ?inner) ?u = ?u"
    by (simp add: mk_op_def getResult_def rewire_def subst_val_def)
  from shared_inner_transpose_is_kept[OF wf p k(1) d k(2) u un]
  obtain rw' where "SimplifyRedundantTranspose_matchAndRewrite ?p ex_tt_shared_rw = (success, rw')"
    "?inner \<in> set (ir rw')" "rewire (getResult ?p) (getOperand ?inner) ?u \<in> set (ir rw')"
    "\<not> isOpTriviallyDead (ir rw') ?inner" by blast
  with wf r show ?thesis by auto
qed

section \<open>The reshape rule never removes a reshape outright\<close>

text \<open>A reshape whose source and target types are equal.\<close>

definition identity_reshape :: "ty list \<Rightarrow> graph \<Rightarrow> operation \<Rightarrow> bool" where
  "identity_reshape tys g n =
     (op_kind n = Reshape \<and> type_env tys g (getOperand n) = Some (result_type n))"

text \<open>reshape(reshape(x)) back to the type of x.\<close>

definition ex_rr_back :: graph where
  "ex_rr_back = [mk_op 1 Reshape [BlockArg 0] [6],
                 mk_op 2 Reshape [OpResult 1] [2, 3],
                 mk_op 3 Return [OpResult 2] []]"

definition ex_rr_back_rw :: rewriter where
  "ex_rr_back_rw = \<lparr>ir = ex_rr_back, worklist = [2, 3]\<rparr>"

lemma fold_bind_result_other:
  "v \<notin> getResult ` set xs \<Longrightarrow> fold bind_result xs G v = G v"
  by (induction xs arbitrary: G) (auto simp: bind_result_def)

lemma type_env_append: "type_env tys (xs @ ys) = fold bind_result ys (type_env tys xs)"
  by (simp add: type_env_def)

lemma getResult_rewire [simp]: "getResult (rewire a b q) = getResult q"
  by (simp add: getResult_def)

lemma length_filter_kind_rewire [simp]:
  "length (filter (\<lambda>q. op_kind q = k) (map (rewire a b) xs)) = length (filter (\<lambda>q. op_kind q = k) xs)"
  by (induction xs) auto

text \<open>
  Claim C9.  On every reshape of a reshape the rule puts a new reshape into the graph and
  leaves the number of reshapes of the graph as it was.  The operand of the new reshape
  keeps its type; when that type is the target type, the new reshape is an identity
  reshape, and it is in the graph all the same.
\<close>

theorem reshape_rewrite_keeps_a_reshape:
  assumes wf: "wf_graph tys (ir rw)" and p: "p \<in> set (ir rw)"
    and k: "op_kind p = Reshape"
    and d: "getDefiningOp (ir rw) (getOperand p) = Some inner"
    and ki: "op_kind inner = Reshape"
  shows "\<exists>rw' n. ReshapeReshapeOptPattern_matchAndRewrite p rw = (success, rw') \<and>
           n \<in> set (ir rw') \<and> op_id n \<notin> ids (ir rw) \<and> op_kind n = Reshape \<and>
           operands n = [getOperand inner] \<and> result_type n = result_type p \<and>
           length (filter (\<lambda>q. op_kind q = Reshape) (ir rw')) =
             length (filter (\<lambda>q. op_kind q = Reshape) (ir rw)) \<and>
           type_env tys (ir rw') (getOperand n) = type_env tys (ir rw) (getOperand inner) \<and>
           (type_env tys (ir rw) (getOperand inner) = Some (result_type p) \<longrightarrow>
              identity_reshape tys (ir rw') n)"
proof -
  let ?x = "getOperand inner"
  let ?rw' = "replaceOpWithNewOp Reshape p (result_type p) [?x] rw"
  let ?n = "new_reshape (ir rw) p ?x"
  let ?s = "rewire (getResult p) (getResult ?n)"
  from p obtain pre post where g: "ir rw = pre @ p # post" by (auto dest: split_list)
  from wf have wf': "wf_graph tys (pre @ p # post)" by (simp add: g)
  note idf = wf_graph_ids[OF wf']
  from d have d': "getDefiningOp (pre @ p # post) (getOperand p) = Some inner" by (simp add: g)
  note df = defining_op_before[OF wf' disjI2[OF k] d']
  note xf = inner_operand_facts[OF wf' df(1) disjI2[OF ki]]
  have shape: "ir ?rw' = pre @ ?n # map ?s post"
    using wf' g xf(2) by (rule replaceOpWithNewOp_split)
  have 1: "ReshapeReshapeOptPattern_matchAndRewrite p rw = (success, ?rw')"
    using d ki by (rule reshape_match)
  have 2: "?n \<in> set (ir ?rw')" unfolding shape by simp
  have 3: "op_id ?n \<notin> ids (ir rw)" using fresh_id_notin[of "ir rw"] by simp
  have 4: "length (filter (\<lambda>q. op_kind q = Reshape) (ir ?rw')) =
             length (filter (\<lambda>q. op_kind q = Reshape) (ir rw))"
    unfolding shape g using k by (simp add: comp_def)
  have a: "?x \<notin> getResult ` set (p # post)" using xf(2,3) by auto
  have b: "?x \<notin> getResult ` set (?n # map ?s post)"
    using xf(3,4) by (auto simp: getResult_def g)
  have "type_env tys (ir ?rw') ?x = type_env tys pre ?x"
    unfolding shape type_env_append using b by (rule fold_bind_result_other)
  moreover have "type_env tys (ir rw) ?x = type_env tys pre ?x"
    unfolding g type_env_append using a by (rule fold_bind_result_other)
  ultimately have 5: "type_env tys (ir ?rw') (getOperand ?n) = type_env tys (ir rw) ?x"
    by (simp add: getOperand_def)
  then have 6: "type_env tys (ir rw) ?x = Some (result_type p) \<longrightarrow> identity_reshape tys (ir ?rw') ?n"
    by (simp add: identity_reshape_def)
  from 1 2 3 4 5 6 show ?thesis
    by (intro exI[of _ ?rw'] exI[of _ ?n]) simp
qed

theorem reshape_rewrite_keeps_a_reshape_witness:
  "wf_graph [[2, 3]] (ir ex_rr_back_rw) \<and>
   (\<exists>rw' n. ReshapeReshapeOptPattern_matchAndRewrite (mk_op 2 Reshape [OpResult 1] [2, 3])
              ex_rr_back_rw = (success, rw') \<and>
            n \<in> set (ir rw') \<and> operands n = [BlockArg 0] \<and> result_type n = [2, 3] \<and>
            identity_reshape [[2, 3]] (ir rw') n) \<and>
   canonicalize 20 ex_rr_back =
     (Converged, [\<lparr>op_id = 4, op_kind = Reshape, operands = [BlockArg 0], result_type = [2, 3], loc = 2\<rparr>,
                  mk_op 3 Return [OpResult 4] []])"
proof -
  let ?p = "mk_op 2 Reshape [OpResult 1] [2, 3]"
  let ?inner = "mk_op 1 Reshape [BlockArg 0] [6]"
  have wf: "wf_graph [[2, 3]] (ir ex_rr_back_rw)"
    by (simp add: ex_defs ex_rr_back_rw_def ex_rr_back_def eval_defs)
  have p: "?p \<in> set (ir ex_rr_back_rw)"
    by (simp_all add: ex_defs ex_rr_back_rw_def ex_rr_back_def)
  have k: "op_kind ?p = Reshape" "op_kind ?inner = Reshape" by (simp_all add: ex_defs)
  have d: "getDefiningOp (ir ex_rr_back_rw) (getOperand ?p) = Some ?inner"
    by (simp add: ex_defs ex_rr_back_rw_def ex_rr_back_def eval_defs)
  have t: "type_env [[2, 3]] (ir ex_rr_back_rw) (getOperand ?inner) = Some (result_type ?p)"
    by (simp add: ex_defs ex_rr_back_rw_def ex_rr_back_def eval_defs type_env_def)
  have c: "canonicalize 20 ex_rr_back =
     (Converged, [\<lparr>op_id = 4, op_kind = Reshape, operands = [BlockArg 0], result_type = [2, 3], loc = 2\<rparr>,
                  mk_op 3 Return [OpResult 4] []])" by code_simp
  from reshape_rewrite_keeps_a_reshape[OF wf p k(1) d k(2)] t
  obtain rw' n where "ReshapeReshapeOptPattern_matchAndRewrite ?p ex_rr_back_rw = (success, rw')"
    "n \<in> set (ir rw')" "operands n = [getOperand ?inner]" "result_type n = result_type ?p"
    "identity_reshape [[2, 3]] (ir rw') n" by blast
  with wf c show ?thesis by (auto simp: mk_op_def getOperand_def)
qed

section \<open>The rewrites keep a graph well-formed\<close>

lemma subst_val_same [simp]: "subst_val a a v = v"
  by (simp add: subst_val_def)

lemma subst_val_same_fun [simp]: "subst_val a a = (\<lambda>v. v)"
  by (rule ext) simp

lemma rewire_same [simp]: "rewire a a q = q"
  by (simp add: rewire_def)

lemma map_rewire_same [simp]: "map (rewire a a) xs = xs"
  by (induction xs) auto

lemma getOperand_rewire:
  "operands q \<noteq> [] \<Longrightarrow> getOperand (rewire a b q) = subst_val a b (getOperand q)"
  by (simp add: getOperand_def hd_map)

lemma getOperand_in_operands: "length (operands q) = 1 \<Longrightarrow> getOperand q \<in> set (operands q)"
  by (cases "operands q") (auto simp: getOperand_def)

lemma wf_op_cong:
  assumes "\<forall>v\<in>set (operands p). G v = G' v"
  shows "wf_op G p = wf_op G' p"
proof -
  have "length (operands p) = 1 \<Longrightarrow> G (getOperand p) = G' (getOperand p)"
    using assms getOperand_in_operands by blast
  moreover have "list_all (\<lambda>v. G v \<noteq> None) (operands p) = list_all (\<lambda>v. G' v \<noteq> None) (operands p)"
    using assms by (auto simp: list_all_iff)
  ultimately show ?thesis unfolding wf_op_def
    by (cases "length (operands p) = 1") simp_all
qed

lemma wf_op_rewire:
  assumes w: "wf_op G1 q"
    and rel: "\<forall>v\<in>set (operands q). G2 (subst_val a b v) = G1 v"
  shows "wf_op G2 (rewire a b q)"
proof -
  have 1: "list_all (\<lambda>v. G2 v \<noteq> None) (operands (rewire a b q))"
    using w rel by (auto simp: wf_op_def list_all_iff)
  have 2: "length (operands q) = 1 \<Longrightarrow> G2 (getOperand (rewire a b q)) = G1 (getOperand q)"
  proof -
    assume l: "length (operands q) = 1"
    then have "operands q \<noteq> []" by auto
    then have "getOperand (rewire a b q) = subst_val a b (getOperand q)" by (rule getOperand_rewire)
    with rel getOperand_in_operands[OF l] show ?thesis by simp
  qed
  from w 1 2 show ?thesis unfolding wf_op_def by auto
qed

lemma wf_ops_rewire:
  assumes "wf_ops G1 U1 post"
    and "\<forall>v. v \<notin> X \<longrightarrow> G1 v \<noteq> None \<longrightarrow> G2 (subst_val a b v) = G1 v"
    and "\<forall>q\<in>set post. op_id q \<notin> U2"
    and "\<forall>q\<in>set post. getResult q \<noteq> a \<and> getResult q \<noteq> b \<and> set (operands q) \<inter> X = {}"
  shows "wf_ops G2 U2 (map (rewire a b) post)"
  using assms
proof (induction post arbitrary: G1 U1 G2 U2)
  case Nil
  then show ?case by simp
next
  case (Cons q qs)
  from Cons.prems(1) have w: "wf_op G1 q"
    and ws: "wf_ops (bind_result q G1) (insert (op_id q) U1) qs" by simp_all
  have rel: "\<forall>v\<in>set (operands q). G2 (subst_val a b v) = G1 v"
    using Cons.prems(2,4) wf_op_operands[OF w] by auto
  have 1: "wf_op G2 (rewire a b q)" using w rel by (rule wf_op_rewire)
  have 2: "op_id (rewire a b q) \<notin> U2" using Cons.prems(3) by simp
  have qa: "getResult q \<noteq> a" "getResult q \<noteq> b" using Cons.prems(4) by simp_all
  have r': "\<forall>v. v \<notin> X \<longrightarrow> bind_result q G1 v \<noteq> None \<longrightarrow>
              bind_result (rewire a b q) G2 (subst_val a b v) = bind_result q G1 v"
    using Cons.prems(2) qa by (auto simp: bind_result_def subst_val_def)
  have f': "\<forall>q'\<in>set qs. op_id q' \<notin> insert (op_id q) U2"
    using Cons.prems(3) wf_ops_disjoint[OF ws] by (auto dest: in_ids)
  have "wf_ops (bind_result (rewire a b q) G2) (insert (op_id q) U2) (map (rewire a b) qs)"
    using ws r' f' Cons.prems(4) by (intro Cons.IH) auto
  with 1 2 show ?case by simp
qed

lemma fold_bind_stable:
  "wf_ops G U g \<Longrightarrow> tydom G U \<Longrightarrow> G v \<noteq> None \<Longrightarrow> fold bind_result g G v = G v"
proof -
  assume w: "wf_ops G U g" and t: "tydom G U" and v: "G v \<noteq> None"
  have "v \<notin> getResult ` set g"
  proof
    assume "v \<in> getResult ` set g"
    then obtain q where q: "q \<in> set g" "v = OpResult (op_id q)" by (auto simp: getResult_def)
    with t v have "op_id q \<in> U" by (auto simp: tydom_def)
    with wf_ops_disjoint[OF w] q(1) show False by (auto dest: in_ids)
  qed
  then show ?thesis by (rule fold_bind_result_other)
qed

text \<open>In the typing of the whole block every operation is still well-formed, and the
  type of its result is its result type.\<close>

lemma wf_ops_final:
  "wf_ops G U g \<Longrightarrow> tydom G U \<Longrightarrow> q \<in> set g \<Longrightarrow>
     wf_op (fold bind_result g G) q \<and>
     (has_result (op_kind q) \<longrightarrow> fold bind_result g G (getResult q) = Some (result_type q))"
proof (induction g arbitrary: G U)
  case Nil
  then show ?case by simp
next
  case (Cons p ps)
  from Cons.prems(1) have w: "wf_op G p" and nu: "op_id p \<notin> U"
    and ws: "wf_ops (bind_result p G) (insert (op_id p) U) ps" by simp_all
  note t' = tydom_bind_result[OF Cons.prems(2), of p]
  show ?case
  proof (cases "q \<in> set ps")
    case True
    from Cons.IH[OF ws t' True] show ?thesis by simp
  next
    case False
    with Cons.prems(3) have qp: "q = p" by simp
    have st: "\<And>v. bind_result p G v \<noteq> None \<Longrightarrow> fold bind_result ps (bind_result p G) v = bind_result p G v"
      using ws t' by (rule fold_bind_stable)
    have "\<forall>v\<in>set (operands p). fold bind_result (p # ps) G v = G v"
    proof
      fix v assume v: "v \<in> set (operands p)"
      from wf_op_operands[OF w v] have gv: "G v \<noteq> None" .
      with Cons.prems(2) nu have "v \<noteq> getResult p" by (auto simp: tydom_def getResult_def)
      then have b: "bind_result p G v = G v" by (simp add: bind_result_def)
      with st[of v] gv show "fold bind_result (p # ps) G v = G v" by simp
    qed
    from wf_op_cong[OF this] w have 1: "wf_op (fold bind_result (p # ps) G) p" by simp
    have 2: "has_result (op_kind p) \<longrightarrow> fold bind_result (p # ps) G (getResult p) = Some (result_type p)"
      using st[of "getResult p"] by (cases "has_result (op_kind p)") (simp_all add: bind_result_def)
    from 1 2 qp show ?thesis by simp
  qed
qed

lemma wf_graph_final:
  assumes "wf_graph tys g" "q \<in> set g"
  shows "wf_op (type_env tys g) q"
    "has_result (op_kind q) \<Longrightarrow> type_env tys g (getResult q) = Some (result_type q)"
  using wf_ops_final[of "args_env tys" "{}" g q] assms by (simp_all add: wf_graph_def type_env_def)

lemma type_env_stable:
  assumes "wf_graph tys (pre @ rest)" "type_env tys pre v \<noteq> None"
  shows "type_env tys (pre @ rest) v = type_env tys pre v"
proof -
  from assms(1) have "wf_ops (type_env tys pre) ({} \<union> ids pre) rest"
    by (simp add: wf_graph_def wf_ops_append type_env_def)
  moreover have "tydom (type_env tys pre) ({} \<union> ids pre)"
    unfolding type_env_def by (rule tydom_fold) simp
  ultimately show ?thesis using assms(2) unfolding type_env_append by (rule fold_bind_stable)
qed

lemma transpose_pair_types:
  assumes "wf_op G p" "wf_op G inner" "op_kind p = Transpose" "op_kind inner = Transpose"
    "getOperand p = getResult inner" "G (getResult inner) = Some (result_type inner)"
  shows "G (getOperand inner) = Some (result_type p)"
proof -
  from assms(1,3,5,6) have "result_type inner = rev (result_type p)" by (simp add: wf_op_def)
  moreover from assms(2,4) have "G (getOperand inner) = Some (rev (result_type inner))"
    by (simp add: wf_op_def)
  ultimately show ?thesis by simp
qed

lemma reshape_pair_types:
  assumes "wf_op G p" "wf_op G inner" "op_kind p = Reshape" "op_kind inner = Reshape"
    "getOperand p = getResult inner" "G (getResult inner) = Some (result_type inner)"
  shows "map_option prod_list (G (getOperand inner)) = Some (prod_list (result_type p))"
proof -
  from assms(1,3,5,6) have "prod_list (result_type inner) = prod_list (result_type p)"
    by (simp add: wf_op_def)
  moreover from assms(2,4)
  have "map_option prod_list (G (getOperand inner)) = Some (prod_list (result_type inner))"
    by (simp add: wf_op_def)
  ultimately show ?thesis by simp
qed

text \<open>The typing before an operation of a well-formed graph.\<close>

lemma wf_graph_at:
  assumes wf: "wf_graph tys (pre @ p # post)"
  shows "wf_graph tys pre" "wf_op (type_env tys pre) p"
    "wf_ops (bind_result p (type_env tys pre)) (insert (op_id p) (ids pre)) post"
    "tydom (type_env tys pre) (ids pre)"
proof -
  from wf show "wf_graph tys pre" by (rule wf_graph_prefix)
  from wf show "wf_op (type_env tys pre) p"
    "wf_ops (bind_result p (type_env tys pre)) (insert (op_id p) (ids pre)) post"
    by (simp_all add: wf_graph_def wf_ops_append type_env_def)
  show "tydom (type_env tys pre) (ids pre)"
    using tydom_fold[of "args_env tys" "{}" pre] by (simp add: type_env_def)
qed

lemma wf_graph_join:
  "wf_graph tys pre \<Longrightarrow> wf_ops (type_env tys pre) (ids pre) rest \<Longrightarrow> wf_graph tys (pre @ rest)"
  by (simp add: wf_graph_def wf_ops_append type_env_def)

lemma wf_graph_erase_dead:
  assumes wf: "wf_graph tys (pre @ d # post)"
    and dead: "\<forall>q\<in>set post. getResult d \<notin> set (operands q)"
  shows "wf_graph tys (pre @ post)"
proof -
  note at = wf_graph_at[OF wf] and idf = wf_graph_ids[OF wf]
  let ?G = "type_env tys pre"
  have "wf_ops ?G (ids pre) (map (rewire (getResult d) (getResult d)) post)"
  proof (rule wf_ops_rewire[OF at(3), where X = "{getResult d}"])
    show "\<forall>v. v \<notin> {getResult d} \<longrightarrow> bind_result d ?G v \<noteq> None \<longrightarrow>
            ?G (subst_val (getResult d) (getResult d) v) = bind_result d ?G v"
      by (simp add: bind_result_def)
    show "\<forall>q\<in>set post. op_id q \<notin> ids pre" using idf(3) by (auto dest: in_ids)
    show "\<forall>q\<in>set post. getResult q \<noteq> getResult d \<and> getResult q \<noteq> getResult d \<and>
            set (operands q) \<inter> {getResult d} = {}"
      using dead idf(2) by (auto simp: getResult_def dest: in_ids)
  qed
  then show ?thesis using at(1) by (simp add: wf_graph_join)
qed

lemma wf_graph_transpose_rewrite:
  assumes wf: "wf_graph tys (pre @ p # post)"
    and k: "op_kind p = Transpose" "op_kind inner = Transpose"
    and inn: "inner \<in> set pre" "getOperand p = getResult inner"
  shows "wf_graph tys (pre @ map (rewire (getResult p) (getOperand inner)) post)"
proof -
  note at = wf_graph_at[OF wf] and idf = wf_graph_ids[OF wf]
  note xf = inner_operand_facts[OF wf inn(1) disjI1[OF k(2)]]
  let ?G = "type_env tys pre"
  let ?x = "getOperand inner"
  have hr: "has_result (op_kind inner)" "has_result (op_kind p)" using k by (simp_all add: has_result_def)
  note fin = wf_graph_final[OF at(1) inn(1)]
  have tx: "?G ?x = Some (result_type p)"
    using at(2) fin(1) k(1,2) inn(2) fin(2)[OF hr(1)] by (rule transpose_pair_types)
  have gp: "?G (getResult p) = None"
    using at(4) idf(1) by (auto simp: tydom_def getResult_def)
  have "wf_ops ?G (ids pre) (map (rewire (getResult p) ?x) post)"
  proof (rule wf_ops_rewire[OF at(3), where X = "{}"])
    show "\<forall>v. v \<notin> {} \<longrightarrow> bind_result p ?G v \<noteq> None \<longrightarrow>
            ?G (subst_val (getResult p) ?x v) = bind_result p ?G v"
      using tx hr(2) by (simp add: bind_result_def subst_val_def)
    show "\<forall>q\<in>set post. op_id q \<notin> ids pre" using idf(3) by (auto dest: in_ids)
    show "\<forall>q\<in>set post. getResult q \<noteq> getResult p \<and> getResult q \<noteq> ?x \<and>
            set (operands q) \<inter> {} = {}"
      using xf(3) idf(2) by (auto simp: getResult_def dest: in_ids)
  qed
  then show ?thesis using at(1) by (simp add: wf_graph_join)
qed

lemma wf_graph_reshape_rewrite:
  assumes wf: "wf_graph tys (pre @ p # post)"
    and k: "op_kind p = Reshape" "op_kind inner = Reshape"
    and inn: "inner \<in> set pre" "getOperand p = getResult inner"
    and n: "n = new_reshape (pre @ p # post) p (getOperand inner)"
  shows "wf_graph tys (pre @ n # map (rewire (getResult p) (getResult n)) post)"
proof -
  note at = wf_graph_at[OF wf] and idf = wf_graph_ids[OF wf]
  note xf = inner_operand_facts[OF wf inn(1) disjI2[OF k(2)]]
  let ?G = "type_env tys pre"
  let ?x = "getOperand inner"
  have hr: "has_result (op_kind inner)" "has_result (op_kind p)" "has_result (op_kind n)"
    using k n by (simp_all add: has_result_def)
  note fin = wf_graph_final[OF at(1) inn(1)]
  have tx: "map_option prod_list (?G ?x) = Some (prod_list (result_type p))"
    using at(2) fin(1) k(1,2) inn(2) fin(2)[OF hr(1)] by (rule reshape_pair_types)
  have fr: "op_id n \<notin> ids (pre @ p # post)" using fresh_id_notin[of "pre @ p # post"] n by simp
  have wn: "wf_op ?G n" using tx n by (auto simp: wf_op_def getOperand_def)
  have gn: "?G (getResult n) = None"
    using at(4) fr by (auto simp: tydom_def getResult_def)
  have "wf_ops (bind_result n ?G) (insert (op_id n) (ids pre)) (map (rewire (getResult p) (getResult n)) post)"
  proof (rule wf_ops_rewire[OF at(3), where X = "{}"])
    show "\<forall>v. v \<notin> {} \<longrightarrow> bind_result p ?G v \<noteq> None \<longrightarrow>
            bind_result n ?G (subst_val (getResult p) (getResult n) v) = bind_result p ?G v"
      using hr(2,3) gn n by (auto simp: bind_result_def subst_val_def)
    show "\<forall>q\<in>set post. op_id q \<notin> insert (op_id n) (ids pre)"
      using idf(3) fr by (auto dest: in_ids)
    show "\<forall>q\<in>set post. getResult q \<noteq> getResult p \<and> getResult q \<noteq> getResult n \<and>
            set (operands q) \<inter> {} = {}"
      using fr idf(2) by (auto simp: getResult_def dest: in_ids)
  qed
  with wn fr have "wf_ops ?G (ids pre) (n # map (rewire (getResult p) (getResult n)) post)" by simp
  then show ?thesis using at(1) by (simp add: wf_graph_join)
qed

section \<open>Transposition is an involution\<close>

lemma transpose_index:
  assumes "(k::nat) < c * r"
  shows "(k mod c) * r + k div c < r * c"
    "((k mod c) * r + k div c) mod r = k div c"
    "((k mod c) * r + k div c) div r = k mod c"
proof -
  from assms have c: "0 < c" by (cases c) simp_all
  from assms have r: "0 < r" by (cases r) simp_all
  from assms have d: "k div c < r" by (simp add: less_mult_imp_div_less mult.commute)
  have m: "k mod c < c" using c by simp
  then have "k mod c + 1 \<le> c" by simp
  then have "(k mod c + 1) * r \<le> c * r" by (rule mult_le_mono1)
  then show "(k mod c) * r + k div c < r * c" using d by (simp add: mult.commute)
  show "((k mod c) * r + k div c) mod r = k div c" using d by simp
  show "((k mod c) * r + k div c) div r = k mod c" using d r by simp
qed

lemma transpose_t_2d:
  "shape t = [r, c] \<Longrightarrow> length (elems t) = r * c \<Longrightarrow>
     transpose_t t = Some \<lparr>shape = [c, r],
                     elems = map (\<lambda>k. elems t ! ((k mod r) * c + k div r)) [0..<r * c]\<rparr>"
  by (simp add: transpose_t_def)

lemma transpose_elems:
  assumes len: "length es = r * c"
  shows "map (\<lambda>k. map (\<lambda>k. es ! ((k mod r) * c + k div r)) [0..<r * c] ! ((k mod c) * r + k div c)) [0..<c * r] = es"
proof (rule nth_equalityI)
  show "length (map (\<lambda>k. map (\<lambda>k. es ! ((k mod r) * c + k div r)) [0..<r * c] ! ((k mod c) * r + k div c)) [0..<c * r]) = length es"
    using len by (simp add: mult.commute)
next
  fix k assume "k < length (map (\<lambda>k. map (\<lambda>k. es ! ((k mod r) * c + k div r)) [0..<r * c] ! ((k mod c) * r + k div c)) [0..<c * r])"
  then have k: "k < c * r" by simp
  note ti = transpose_index[OF k]
  let ?j = "(k mod c) * r + k div c"
  have "map (\<lambda>k. es ! ((k mod r) * c + k div r)) [0..<r * c] ! ?j = es ! ((?j mod r) * c + ?j div r)"
    using ti(1) by simp
  also have "\<dots> = es ! ((k div c) * c + k mod c)" by (simp only: ti)
  also have "(k div c) * c + k mod c = k" by simp
  finally show "map (\<lambda>k. map (\<lambda>k. es ! ((k mod r) * c + k div r)) [0..<r * c] ! ((k mod c) * r + k div c)) [0..<c * r] ! k = es ! k"
    using k by simp
qed

lemma transpose_t_conforms:
  assumes "conforms t [r, c]"
  shows "\<exists>t'. transpose_t t = Some t' \<and> conforms t' [c, r] \<and> transpose_t t' = Some t"
proof -
  from assms have sh: "shape t = [r, c]" and len: "length (elems t) = r * c"
    by (simp_all add: conforms_def)
  let ?es' = "map (\<lambda>k. elems t ! ((k mod r) * c + k div r)) [0..<r * c]"
  let ?t' = "\<lparr>shape = [c, r], elems = ?es'\<rparr>"
  have 1: "transpose_t t = Some ?t'" using sh len by (rule transpose_t_2d)
  have 2: "conforms ?t' [c, r]" by (simp add: conforms_def mult.commute)
  have l': "length (elems ?t') = c * r" by (simp add: mult.commute)
  have "transpose_t ?t' = Some \<lparr>shape = [r, c],
      elems = map (\<lambda>k. elems ?t' ! ((k mod c) * r + k div c)) [0..<c * r]\<rparr>"
    by (rule transpose_t_2d[OF _ l']) simp
  also have "map (\<lambda>k. elems ?t' ! ((k mod c) * r + k div c)) [0..<c * r] = elems t"
    using transpose_elems[OF len] by simp
  also have "\<lparr>shape = [r, c], elems = elems t\<rparr> = t" using sh by simp
  finally have 3: "transpose_t ?t' = Some t" .
  from 1 2 3 show ?thesis by blast
qed

section \<open>Evaluation of a block\<close>

definition bind_value :: "'a interp \<Rightarrow> operation \<Rightarrow> 'a env \<Rightarrow> 'a env" where
  "bind_value I p E = (if has_result (op_kind p) then E(getResult p := eval_op I E p) else E)"

definition exec :: "'a interp \<Rightarrow> 'a env \<Rightarrow> graph \<Rightarrow> 'a env" where
  "exec I E g = fold (bind_value I) g E"

definition observe :: "'a env \<Rightarrow> operation \<Rightarrow> (opkind \<times> 'a tensor option list) list" where
  "observe E p = (if has_result (op_kind p) then [] else [(op_kind p, map E (operands p))])"

definition env_typed :: "tyenv \<Rightarrow> 'a env \<Rightarrow> bool" where
  "env_typed G E = (\<forall>v s t. G v = Some s \<longrightarrow> E v = Some t \<longrightarrow> conforms t s)"

lemma run_Cons: "run I E (p # ps) = observe E p @ run I (bind_value I p E) ps"
  by (simp add: observe_def bind_value_def)

lemma exec_Nil [simp]: "exec I E [] = E"
  and exec_Cons [simp]: "exec I E (p # ps) = exec I (bind_value I p E) ps"
  and exec_append: "exec I E (xs @ ys) = exec I (exec I E xs) ys"
  by (simp_all add: exec_def)

lemma run_append: "run I E (xs @ ys) = run I E xs @ run I (exec I E xs) ys"
proof (induction xs arbitrary: E)
  case Nil
  then show ?case by simp
next
  case (Cons p ps)
  show ?case unfolding append_Cons run_Cons exec_Cons Cons.IH by simp
qed

lemma eval_op_cong:
  assumes "\<forall>v\<in>set (operands p). E v = E' v"
  shows "eval_op I E p = eval_op I E' p"
proof -
  from assms have m: "map E (operands p) = map E' (operands p)" by simp
  show ?thesis unfolding eval_op_def m by (rule refl)
qed

lemma eval_op_rewire:
  assumes "\<forall>v\<in>set (operands q). E2 (subst_val a b v) = E1 v"
  shows "eval_op I E2 (rewire a b q) = eval_op I E1 q"
proof -
  from assms have m: "map E2 (operands (rewire a b q)) = map E1 (operands q)" by simp
  show ?thesis unfolding eval_op_def m op_kind_rewire op_id_rewire result_type_rewire
    by (rule refl)
qed

lemma eval_op_conforms: "eval_op I E p = Some t \<Longrightarrow> conforms t (result_type p)"
  by (auto simp: eval_op_def checked_def split: option.splits if_splits)

lemma run_rewire:
  assumes "\<forall>v. v \<notin> X \<longrightarrow> E2 (subst_val a b v) = E1 v"
    and "\<forall>q\<in>set post. getResult q \<noteq> a \<and> getResult q \<noteq> b \<and> set (operands q) \<inter> X = {}"
  shows "run I E2 (map (rewire a b) post) = run I E1 post"
  using assms
proof (induction post arbitrary: E1 E2)
  case Nil
  then show ?case by simp
next
  case (Cons q qs)
  have rel: "\<forall>v\<in>set (operands q). E2 (subst_val a b v) = E1 v"
    using Cons.prems by auto
  have ev: "eval_op I E2 (rewire a b q) = eval_op I E1 q" using rel by (rule eval_op_rewire)
  have ob: "observe E2 (rewire a b q) = observe E1 q"
    using rel by (simp add: observe_def)
  have qa: "getResult q \<noteq> a" "getResult q \<noteq> b" using Cons.prems(2) by simp_all
  have r': "\<forall>v. v \<notin> X \<longrightarrow> bind_value I (rewire a b q) E2 (subst_val a b v) = bind_value I q E1 v"
    using Cons.prems(1) qa ev by (auto simp: bind_value_def subst_val_def)
  have "run I (bind_value I (rewire a b q) E2) (map (rewire a b) qs) = run I (bind_value I q E1) qs"
    using r' Cons.prems(2) by (intro Cons.IH) auto
  with ob show ?case unfolding list.map run_Cons by simp
qed

lemma exec_other: "v \<notin> getResult ` set g \<Longrightarrow> exec I E g v = E v"
  by (induction g arbitrary: E) (auto simp: bind_value_def)

lemma wf_ops_not_result:
  assumes "wf_ops G U g" "tydom G U" "G v \<noteq> None"
  shows "v \<notin> getResult ` set g"
proof
  assume "v \<in> getResult ` set g"
  then obtain q where q: "q \<in> set g" "v = OpResult (op_id q)" by (auto simp: getResult_def)
  with assms(2,3) have "op_id q \<in> U" by (auto simp: tydom_def)
  with wf_ops_disjoint[OF assms(1)] q(1) show False by (auto dest: in_ids)
qed

text \<open>After a well-formed block the value of each result is the value of its operation
  in the final environment.\<close>

lemma exec_final:
  "wf_ops G U g \<Longrightarrow> tydom G U \<Longrightarrow> q \<in> set g \<Longrightarrow> has_result (op_kind q) \<Longrightarrow>
     exec I E g (getResult q) = eval_op I (exec I E g) q"
proof (induction g arbitrary: G U E)
  case Nil
  then show ?case by simp
next
  case (Cons p ps)
  from Cons.prems(1) have w: "wf_op G p" and nu: "op_id p \<notin> U"
    and ws: "wf_ops (bind_result p G) (insert (op_id p) U) ps" by simp_all
  note t' = tydom_bind_result[OF Cons.prems(2), of p]
  show ?case
  proof (cases "q \<in> set ps")
    case True
    from Cons.IH[OF ws t' True Cons.prems(4)] show ?thesis by simp
  next
    case False
    with Cons.prems(3) have qp: "q = p" by simp
    have hp: "has_result (op_kind p)" using Cons.prems(4) qp by simp
    have "bind_result p G (getResult p) \<noteq> None" using hp by (simp add: bind_result_def)
    from wf_ops_not_result[OF ws t' this]
    have 1: "exec I E (p # ps) (getResult p) = eval_op I E p"
      using hp by (simp add: exec_other bind_value_def)
    have "\<forall>v\<in>set (operands p). exec I E (p # ps) v = E v"
    proof
      fix v assume v: "v \<in> set (operands p)"
      from wf_op_operands[OF w v] have gv: "G v \<noteq> None" .
      with Cons.prems(2) nu have ne: "v \<noteq> getResult p" by (auto simp: tydom_def getResult_def)
      then have "bind_result p G v \<noteq> None" using gv by (simp add: bind_result_def)
      from wf_ops_not_result[OF ws t' this] ne
      show "exec I E (p # ps) v = E v" by (simp add: exec_other bind_value_def)
    qed
    from eval_op_cong[OF this] 1 qp show ?thesis by simp
  qed
qed

lemma env_typed_bind:
  assumes "env_typed G E"
  shows "env_typed (bind_result p G) (bind_value I p E)"
  using assms eval_op_conforms[of I E p]
  by (auto simp: env_typed_def bind_result_def bind_value_def)

lemma env_typed_exec: "env_typed G E \<Longrightarrow> env_typed (fold bind_result g G) (exec I E g)"
proof (induction g arbitrary: G E)
  case Nil
  then show ?case by simp
next
  case (Cons p ps)
  from Cons.IH[OF env_typed_bind[OF Cons.prems, of p I]] show ?case by simp
qed

lemma env_typed_init: "env_typed (args_env tys) (init_env tys inputs)"
  by (auto simp: env_typed_def args_env_def init_env_def split: val.splits if_splits)

section \<open>The rewrites keep the values\<close>

lemma eval_op_transpose:
  "op_kind q = Transpose \<Longrightarrow> operands q = [v] \<Longrightarrow>
     eval_op I E q = checked (result_type q) (case E v of None \<Rightarrow> None | Some t \<Rightarrow> transpose_t t)"
  by (simp add: eval_op_def split: option.splits)

lemma eval_op_reshape:
  "op_kind q = Reshape \<Longrightarrow> operands q = [v] \<Longrightarrow>
     eval_op I E q =
       checked (result_type q) (case E v of None \<Rightarrow> None | Some t \<Rightarrow> reshape_t (result_type q) t)"
  by (simp add: eval_op_def split: option.splits)

lemma wf_op_unary:
  "wf_op G q \<Longrightarrow> op_kind q = Transpose \<or> op_kind q = Reshape \<Longrightarrow> operands q = [getOperand q]"
proof -
  assume "wf_op G q" "op_kind q = Transpose \<or> op_kind q = Reshape"
  then have "length (operands q) = 1" by (auto simp: wf_op_def)
  then show ?thesis by (cases "operands q") (auto simp: getOperand_def)
qed

lemma transpose_of_transpose_value:
  assumes wp: "wf_op G p" and wi: "wf_op G inner"
    and k: "op_kind p = Transpose" "op_kind inner = Transpose"
    and op: "getOperand p = getResult inner"
    and ti: "G (getResult inner) = Some (result_type inner)"
    and ev: "E (getResult inner) = eval_op I E inner"
    and ty: "env_typed G E"
  shows "eval_op I E p = E (getOperand inner)"
proof -
  let ?x = "getOperand inner"
  have op_p: "operands p = [getResult inner]" using wf_op_unary[OF wp] k(1) op by simp
  have op_i: "operands inner = [?x]" using wf_op_unary[OF wi] k(2) by simp
  have rp: "length (result_type p) = 2" and ri: "result_type inner = rev (result_type p)"
    using wp k(1) op ti by (simp_all add: wf_op_def)
  from rp obtain r c where tp: "result_type p = [r, c]"
    by (cases "result_type p"; cases "tl (result_type p)") auto
  with ri have tin: "result_type inner = [c, r]" by simp
  have gx: "G ?x = Some [r, c]" using wi k(2) tin by (simp add: wf_op_def)
  have ep: "eval_op I E p = checked [r, c]
      (case eval_op I E inner of None \<Rightarrow> None | Some t \<Rightarrow> transpose_t t)"
    using eval_op_transpose[OF k(1) op_p, of I E] ev tp by simp
  have ei: "eval_op I E inner = checked [c, r]
      (case E ?x of None \<Rightarrow> None | Some t \<Rightarrow> transpose_t t)"
    using eval_op_transpose[OF k(2) op_i, of I E] tin by simp
  show ?thesis
  proof (cases "E ?x")
    case None
    then show ?thesis by (simp add: ep ei checked_def)
  next
    case (Some t)
    with ty gx have "conforms t [r, c]" by (auto simp: env_typed_def)
    from transpose_t_conforms[OF this] obtain t' where
      t': "transpose_t t = Some t'" "conforms t' [c, r]" "transpose_t t' = Some t" by blast
    from \<open>conforms t [r, c]\<close> t' Some show ?thesis by (simp add: ep ei checked_def)
  qed
qed

lemma reshape_of_reshape_value:
  assumes wp: "wf_op G p" and wi: "wf_op G inner"
    and k: "op_kind p = Reshape" "op_kind inner = Reshape"
    and op: "getOperand p = getResult inner"
    and ti: "G (getResult inner) = Some (result_type inner)"
    and ev: "E (getResult inner) = eval_op I E inner"
    and ty: "env_typed G E"
    and n: "op_kind n = Reshape" "operands n = [getOperand inner]" "result_type n = result_type p"
  shows "eval_op I E n = eval_op I E p"
proof -
  let ?x = "getOperand inner"
  have op_p: "operands p = [getResult inner]" using wf_op_unary[OF wp] k(1) op by simp
  have op_i: "operands inner = [?x]" using wf_op_unary[OF wi] k(2) by simp
  have pp: "prod_list (result_type inner) = prod_list (result_type p)"
    using wp k(1) op ti by (simp add: wf_op_def)
  from wi k(2) obtain s where gx: "G ?x = Some s" and ps: "prod_list s = prod_list (result_type inner)"
    by (auto simp: wf_op_def)
  have ep: "eval_op I E p = checked (result_type p)
      (case eval_op I E inner of None \<Rightarrow> None | Some t \<Rightarrow> reshape_t (result_type p) t)"
    using eval_op_reshape[OF k(1) op_p, of I E] ev by simp
  have ei: "eval_op I E inner = checked (result_type inner)
      (case E ?x of None \<Rightarrow> None | Some t \<Rightarrow> reshape_t (result_type inner) t)"
    using eval_op_reshape[OF k(2) op_i, of I E] by simp
  have en: "eval_op I E n = checked (result_type p)
      (case E ?x of None \<Rightarrow> None | Some t \<Rightarrow> reshape_t (result_type p) t)"
    using eval_op_reshape[OF n(1,2), of I E] unfolding n(3) .
  show ?thesis
  proof (cases "E ?x")
    case None
    then show ?thesis by (simp add: ep ei en checked_def)
  next
    case (Some t)
    with ty gx have "conforms t s" by (auto simp: env_typed_def)
    with ps pp Some show ?thesis
      by (simp add: ep ei en checked_def reshape_t_def conforms_def)
  qed
qed

lemma evaluate_split:
  "evaluate I tys inputs (pre @ rest) =
     run I (init_env tys inputs) pre @ run I (exec I (init_env tys inputs) pre) rest"
  by (simp add: evaluate_def run_append)

lemma exec_typed:
  "env_typed (type_env tys pre) (exec I (init_env tys inputs) pre)"
  unfolding type_env_def by (rule env_typed_exec[OF env_typed_init])

lemma exec_graph_final:
  assumes "wf_graph tys pre" "q \<in> set pre" "has_result (op_kind q)"
  shows "exec I E pre (getResult q) = eval_op I (exec I E pre) q"
  using exec_final[of "args_env tys" "{}" pre q I E] assms by (simp add: wf_graph_def)

lemma evaluate_erase_dead:
  assumes wf: "wf_graph tys (pre @ d # post)"
    and hr: "has_result (op_kind d)"
    and dead: "\<forall>q\<in>set post. getResult d \<notin> set (operands q)"
  shows "evaluate I tys inputs (pre @ post) = evaluate I tys inputs (pre @ d # post)"
proof -
  note idf = wf_graph_ids[OF wf]
  let ?E = "exec I (init_env tys inputs) pre"
  have "run I ?E (map (rewire (getResult d) (getResult d)) post) = run I (bind_value I d ?E) post"
  proof (rule run_rewire[where X = "{getResult d}"])
    show "\<forall>v. v \<notin> {getResult d} \<longrightarrow>
            ?E (subst_val (getResult d) (getResult d) v) = bind_value I d ?E v"
      by (simp add: bind_value_def)
    show "\<forall>q\<in>set post. getResult q \<noteq> getResult d \<and> getResult q \<noteq> getResult d \<and>
            set (operands q) \<inter> {getResult d} = {}"
      using dead idf(2) by (auto simp: getResult_def dest: in_ids)
  qed
  then show ?thesis using hr unfolding evaluate_split run_Cons by (simp add: observe_def)
qed

lemma evaluate_transpose_rewrite:
  assumes wf: "wf_graph tys (pre @ p # post)"
    and k: "op_kind p = Transpose" "op_kind inner = Transpose"
    and inn: "inner \<in> set pre" "getOperand p = getResult inner"
  shows "evaluate I tys inputs (pre @ map (rewire (getResult p) (getOperand inner)) post) =
           evaluate I tys inputs (pre @ p # post)"
proof -
  note at = wf_graph_at[OF wf] and idf = wf_graph_ids[OF wf]
  note xf = inner_operand_facts[OF wf inn(1) disjI1[OF k(2)]]
  let ?G = "type_env tys pre"
  let ?E = "exec I (init_env tys inputs) pre"
  let ?x = "getOperand inner"
  have hr: "has_result (op_kind inner)" "has_result (op_kind p)"
    using k by (simp_all add: has_result_def)
  note fin = wf_graph_final[OF at(1) inn(1)]
  have val: "eval_op I ?E p = ?E ?x"
    using at(2) fin(1) k inn(2) fin(2)[OF hr(1)] exec_graph_final[OF at(1) inn(1) hr(1)] exec_typed
    by (rule transpose_of_transpose_value)
  have "run I ?E (map (rewire (getResult p) ?x) post) = run I (bind_value I p ?E) post"
  proof (rule run_rewire[where X = "{}"])
    show "\<forall>v. v \<notin> {} \<longrightarrow> ?E (subst_val (getResult p) ?x v) = bind_value I p ?E v"
      using val hr(2) by (simp add: bind_value_def subst_val_def)
    show "\<forall>q\<in>set post. getResult q \<noteq> getResult p \<and> getResult q \<noteq> ?x \<and>
            set (operands q) \<inter> {} = {}"
      using xf(3) idf(2) by (auto simp: getResult_def dest: in_ids)
  qed
  then show ?thesis using hr unfolding evaluate_split run_Cons by (simp add: observe_def)
qed

lemma evaluate_reshape_rewrite:
  assumes wf: "wf_graph tys (pre @ p # post)"
    and k: "op_kind p = Reshape" "op_kind inner = Reshape"
    and inn: "inner \<in> set pre" "getOperand p = getResult inner"
    and n: "n = new_reshape (pre @ p # post) p (getOperand inner)"
  shows "evaluate I tys inputs (pre @ n # map (rewire (getResult p) (getResult n)) post) =
           evaluate I tys inputs (pre @ p # post)"
proof -
  note at = wf_graph_at[OF wf] and idf = wf_graph_ids[OF wf]
  let ?G = "type_env tys pre"
  let ?E = "exec I (init_env tys inputs) pre"
  let ?x = "getOperand inner"
  have hr: "has_result (op_kind inner)" "has_result (op_kind p)" "has_result (op_kind n)"
    using k n by (simp_all add: has_result_def)
  note fin = wf_graph_final[OF at(1) inn(1)]
  have nf: "op_kind n = Reshape" "operands n = [?x]" "result_type n = result_type p"
    using n by simp_all
  have val: "eval_op I ?E n = eval_op I ?E p"
    using at(2) fin(1) k inn(2) fin(2)[OF hr(1)] exec_graph_final[OF at(1) inn(1) hr(1)] exec_typed nf
    by (rule reshape_of_reshape_value)
  have fr: "op_id n \<notin> ids (pre @ p # post)" using fresh_id_notin[of "pre @ p # post"] n by simp
  have unused: "\<forall>q\<in>set post. getResult n \<notin> set (operands q)"
  proof
    fix q assume "q \<in> set post"
    then have "q \<in> set (pre @ p # post)" by simp
    from wf_graph_operand_ids[OF wf this, of "op_id n"] fr
    show "getResult n \<notin> set (operands q)" by (auto simp: getResult_def)
  qed
  have "run I (bind_value I n ?E) (map (rewire (getResult p) (getResult n)) post) =
          run I (bind_value I p ?E) post"
  proof (rule run_rewire[where X = "{getResult n}"])
    show "\<forall>v. v \<notin> {getResult n} \<longrightarrow>
            bind_value I n ?E (subst_val (getResult p) (getResult n) v) = bind_value I p ?E v"
      using val hr(2,3) by (simp add: bind_value_def subst_val_def)
    show "\<forall>q\<in>set post. getResult q \<noteq> getResult p \<and> getResult q \<noteq> getResult n \<and>
            set (operands q) \<inter> {getResult n} = {}"
      using unused fr idf(2) by (auto simp: getResult_def dest: in_ids)
  qed
  then show ?thesis using hr unfolding evaluate_split run_Cons by (simp add: observe_def)
qed

section \<open>One step of the driver\<close>

lemma patterns_for_canonicalization:
  "patterns_for canonicalization_patterns Transpose = [SimplifyRedundantTranspose]"
  "patterns_for canonicalization_patterns Reshape = [ReshapeReshapeOptPattern]"
  "k \<noteq> Transpose \<Longrightarrow> k \<noteq> Reshape \<Longrightarrow> patterns_for canonicalization_patterns k = []"
  by (simp_all add: patterns_for_def canonicalization_patterns_def
      ReshapeOp_getCanonicalizationPatterns_def TransposeOp_getCanonicalizationPatterns_def
      SimplifyRedundantTranspose_def ReshapeReshapeOptPattern_def)

lemma transpose_match:
  "getDefiningOp (ir rw) (getOperand p) = Some inner \<Longrightarrow> op_kind inner = Transpose \<Longrightarrow>
     SimplifyRedundantTranspose_matchAndRewrite p rw =
       (success, replaceOp p [getOperand inner] rw)"
  by (simp add: SimplifyRedundantTranspose_matchAndRewrite_def getDefiningOp_as_def)

lemma transpose_no_match:
  "getDefiningOp_as Transpose (ir rw) (getOperand p) = None \<Longrightarrow>
     SimplifyRedundantTranspose_matchAndRewrite p rw = (failure, rw)"
  by (simp add: SimplifyRedundantTranspose_matchAndRewrite_def)

lemma reshape_no_match:
  "getDefiningOp_as Reshape (ir rw) (getOperand p) = None \<Longrightarrow>
     ReshapeReshapeOptPattern_matchAndRewrite p rw = (failure, rw)"
  by (simp add: ReshapeReshapeOptPattern_matchAndRewrite_def)

lemma getDefiningOp_as_Some:
  "getDefiningOp_as k g v = Some d \<longleftrightarrow> getDefiningOp g v = Some d \<and> op_kind d = k"
  by (auto simp: getDefiningOp_as_def split: option.splits)

text \<open>A transpose of a transpose or a reshape of a reshape.\<close>

definition redex :: "graph \<Rightarrow> operation \<Rightarrow> bool" where
  "redex g p =
     ((op_kind p = Transpose \<or> op_kind p = Reshape) \<and>
      getDefiningOp_as (op_kind p) g (getOperand p) \<noteq> None)"

definition actionable :: "graph \<Rightarrow> operation \<Rightarrow> bool" where
  "actionable g p = (isOpTriviallyDead g p \<or> redex g p)"

lemma process_not_actionable:
  assumes "lookup_op (ir rw) i = Some p" "\<not> actionable (ir rw) p"
  shows "process canonicalization_patterns i rw = rw"
proof -
  from assms(2) have nd: "\<not> isOpTriviallyDead (ir rw) p" and nr: "\<not> redex (ir rw) p"
    by (simp_all add: actionable_def)
  consider "op_kind p = Transpose" | "op_kind p = Reshape"
    | "op_kind p \<noteq> Transpose" "op_kind p \<noteq> Reshape" by blast
  then have "snd (applyPatterns (patterns_for canonicalization_patterns (op_kind p)) p rw) = rw"
  proof cases
    case 1
    with nr have "getDefiningOp_as Transpose (ir rw) (getOperand p) = None" by (simp add: redex_def)
    from transpose_no_match[OF this] 1 show ?thesis
      by (simp add: patterns_for_canonicalization SimplifyRedundantTranspose_def)
  next
    case 2
    with nr have "getDefiningOp_as Reshape (ir rw) (getOperand p) = None" by (simp add: redex_def)
    from reshape_no_match[OF this] 2 show ?thesis
      by (simp add: patterns_for_canonicalization ReshapeReshapeOptPattern_def)
  next
    case 3
    then show ?thesis by (simp add: patterns_for_canonicalization)
  qed
  with assms(1) nd show ?thesis by (simp add: process_def)
qed

lemma process_dead:
  assumes "lookup_op (ir rw) i = Some p" "isOpTriviallyDead (ir rw) p"
  shows "process ps i rw = eraseOp p rw"
  using assms by (simp add: process_def)

lemma process_transpose:
  assumes "lookup_op (ir rw) i = Some p" "\<not> isOpTriviallyDead (ir rw) p"
    "op_kind p = Transpose" "getDefiningOp (ir rw) (getOperand p) = Some inner"
    "op_kind inner = Transpose"
  shows "process canonicalization_patterns i rw = replaceOp p [getOperand inner] rw"
  using assms transpose_match[OF assms(4,5)]
  by (simp add: process_def patterns_for_canonicalization SimplifyRedundantTranspose_def
      del: replaceOp.simps)

lemma process_reshape:
  assumes "lookup_op (ir rw) i = Some p" "\<not> isOpTriviallyDead (ir rw) p"
    "op_kind p = Reshape" "getDefiningOp (ir rw) (getOperand p) = Some inner"
    "op_kind inner = Reshape"
  shows "process canonicalization_patterns i rw =
           replaceOpWithNewOp Reshape p (result_type p) [getOperand inner] rw"
  using assms reshape_match[OF assms(4,5)]
  by (simp add: process_def patterns_for_canonicalization ReshapeReshapeOptPattern_def)

text \<open>The four things a step of the driver can do to a well-formed graph.\<close>

lemma process_cases:
  assumes wf: "wf_graph tys (ir rw)"
  obtains (skip) "process canonicalization_patterns i rw = rw"
      "\<forall>p. lookup_op (ir rw) i = Some p \<longrightarrow> \<not> actionable (ir rw) p"
  | (erase) pre d post where "ir rw = pre @ d # post" "op_id d = i"
      "has_result (op_kind d)" "\<forall>q\<in>set (ir rw). getResult d \<notin> set (operands q)"
      "process canonicalization_patterns i rw = eraseOp d rw"
      "ir (process canonicalization_patterns i rw) = pre @ post"
  | (transpose) pre p post inner where "ir rw = pre @ p # post" "op_id p = i"
      "op_kind p = Transpose" "op_kind inner = Transpose" "inner \<in> set pre"
      "getOperand p = getResult inner" "\<not> isOpTriviallyDead (ir rw) p"
      "process canonicalization_patterns i rw = replaceOp p [getOperand inner] rw"
      "ir (process canonicalization_patterns i rw) =
         pre @ map (rewire (getResult p) (getOperand inner)) post"
  | (reshape) pre p post inner n where "ir rw = pre @ p # post" "op_id p = i"
      "op_kind p = Reshape" "op_kind inner = Reshape" "inner \<in> set pre"
      "getOperand p = getResult inner" "\<not> isOpTriviallyDead (ir rw) p"
      "n = new_reshape (ir rw) p (getOperand inner)"
      "process canonicalization_patterns i rw =
         replaceOpWithNewOp Reshape p (result_type p) [getOperand inner] rw"
      "ir (process canonicalization_patterns i rw) =
         pre @ n # map (rewire (getResult p) (getResult n)) post"
proof (cases "lookup_op (ir rw) i")
  case None
  then have "process canonicalization_patterns i rw = rw" by (simp add: process_def)
  then show thesis using None by (intro skip) simp_all
next
  case (Some p)
  from lookup_op_SomeD[OF Some] have pin: "p \<in> set (ir rw)" and pid: "op_id p = i" by simp_all
  from pin obtain pre post where g: "ir rw = pre @ p # post" by (auto dest: split_list)
  from wf have wf': "wf_graph tys (pre @ p # post)" by (simp add: g)
  note idf = wf_graph_ids[OF wf']
  show thesis
  proof (cases "actionable (ir rw) p")
    case False
    from process_not_actionable[OF Some False] show thesis using Some False by (intro skip) simp_all
  next
    case True
    show thesis
    proof (cases "isOpTriviallyDead (ir rw) p")
      case dead: True
      then have hr: "has_result (op_kind p)"
        and un: "\<forall>q\<in>set (ir rw). getResult p \<notin> set (operands q)"
        by (auto simp: isOpTriviallyDead_def users_of_def filter_empty_conv)
      have pr: "process canonicalization_patterns i rw = eraseOp p rw"
        using Some dead by (rule process_dead)
      have "ir (eraseOp p rw) = pre @ post"
        using idf(1,2) by (simp add: g filter_other_ids)
      with pr have "ir (process canonicalization_patterns i rw) = pre @ post" by simp
      from g pid hr un pr this show thesis by (rule erase)
    next
      case alive: False
      with True have rd: "redex (ir rw) p" by (simp add: actionable_def)
      then obtain inner where kp: "op_kind p = Transpose \<or> op_kind p = Reshape"
        and d: "getDefiningOp (ir rw) (getOperand p) = Some inner"
        and ki: "op_kind inner = op_kind p"
        by (auto simp: redex_def getDefiningOp_as_Some)
      from d have d': "getDefiningOp (pre @ p # post) (getOperand p) = Some inner" by (simp add: g)
      note df = defining_op_before[OF wf' kp d']
      from kp show thesis
      proof
        assume k: "op_kind p = Transpose"
        with ki have ki': "op_kind inner = Transpose" by simp
        have pr: "process canonicalization_patterns i rw = replaceOp p [getOperand inner] rw"
          using Some alive k d ki' by (rule process_transpose)
        have "ir (replaceOp p [getOperand inner] rw) =
                pre @ map (rewire (getResult p) (getOperand inner)) post"
          using wf' g by (rule replaceOp_split)
        with pr have "ir (process canonicalization_patterns i rw) =
                pre @ map (rewire (getResult p) (getOperand inner)) post" by simp
        from g pid k ki' df(1) df(3) alive pr this show thesis by (rule transpose)
      next
        assume k: "op_kind p = Reshape"
        with ki have ki': "op_kind inner = Reshape" by simp
        note xf = inner_operand_facts[OF wf' df(1) disjI2[OF ki']]
        let ?n = "new_reshape (ir rw) p (getOperand inner)"
        have pr: "process canonicalization_patterns i rw =
                    replaceOpWithNewOp Reshape p (result_type p) [getOperand inner] rw"
          using Some alive k d ki' by (rule process_reshape)
        have "ir (replaceOpWithNewOp Reshape p (result_type p) [getOperand inner] rw) =
                pre @ ?n # map (rewire (getResult p) (getResult ?n)) post"
          using wf' g xf(2) by (rule replaceOpWithNewOp_split)
        with pr have "ir (process canonicalization_patterns i rw) =
                pre @ ?n # map (rewire (getResult p) (getResult ?n)) post" by simp
        from g pid k ki' df(1) df(3) alive refl pr this show thesis by (rule reshape)
      qed
    qed
  qed
qed

lemma process_preserves:
  assumes wf: "wf_graph tys (ir rw)"
  shows "wf_graph tys (ir (process canonicalization_patterns i rw)) \<and>
         evaluate I tys inputs (ir (process canonicalization_patterns i rw)) =
           evaluate I tys inputs (ir rw)"
  using wf
proof (cases rule: process_cases[where i = i])
  case skip
  with wf show ?thesis by simp
next
  case (erase pre d post)
  from wf erase(1) have wf': "wf_graph tys (pre @ d # post)" by simp
  from erase(1,4) have dead: "\<forall>q\<in>set post. getResult d \<notin> set (operands q)" by simp
  from wf_graph_erase_dead[OF wf' dead] evaluate_erase_dead[OF wf' erase(3) dead, of I inputs]
  show ?thesis unfolding erase(6) erase(1) by simp
next
  case (transpose pre p post inner)
  from wf transpose(1) have wf': "wf_graph tys (pre @ p # post)" by simp
  from wf_graph_transpose_rewrite[OF wf' transpose(3,4,5,6)]
    evaluate_transpose_rewrite[OF wf' transpose(3,4,5,6), of I inputs]
  show ?thesis unfolding transpose(9) transpose(1) by simp
next
  case (reshape pre p post inner n)
  from wf reshape(1) have wf': "wf_graph tys (pre @ p # post)" by simp
  from reshape(8,1) have n: "n = new_reshape (pre @ p # post) p (getOperand inner)" by simp
  from wf_graph_reshape_rewrite[OF wf' reshape(3,4,5,6) n]
    evaluate_reshape_rewrite[OF wf' reshape(3,4,5,6) n, of I inputs]
  show ?thesis unfolding reshape(10) reshape(1) by simp
qed

lemma driver_invariant:
  assumes "P rw"
    and "\<And>rw i wl. P rw \<Longrightarrow> worklist rw = i # wl \<Longrightarrow> P (process ps i (rw\<lparr>worklist := wl\<rparr>))"
  shows "P (snd (driver ps n rw))"
  using assms(1)
proof (induction n arbitrary: rw)
  case 0
  then show ?case by simp
next
  case (Suc n)
  show ?case
  proof (cases "worklist rw")
    case Nil
    with Suc.prems show ?thesis by simp
  next
    case (Cons i wl)
    from assms(2)[OF Suc.prems Cons] have "P (process ps i (rw\<lparr>worklist := wl\<rparr>))" .
    from Suc.IH[OF this] Cons show ?thesis by simp
  qed
qed

lemma driver_preserves:
  assumes "wf_graph tys (ir rw)"
  shows "wf_graph tys (ir (snd (driver canonicalization_patterns n rw))) \<and>
         evaluate I tys inputs (ir (snd (driver canonicalization_patterns n rw))) =
           evaluate I tys inputs (ir rw)"
proof -
  let ?P = "\<lambda>rw'. wf_graph tys (ir rw') \<and> evaluate I tys inputs (ir rw') = evaluate I tys inputs (ir rw)"
  have "?P (snd (driver canonicalization_patterns n rw))"
  proof (rule driver_invariant[where P = ?P])
    show "?P rw" using assms by simp
  next
    fix rw' :: rewriter and i wl assume p: "?P rw'" and "worklist rw' = i # wl"
    from p have "wf_graph tys (ir (rw'\<lparr>worklist := wl\<rparr>))" by simp
    from process_preserves[OF this, of i I inputs] p
    show "?P (process canonicalization_patterns i (rw'\<lparr>worklist := wl\<rparr>))" by simp
  qed
  then show ?thesis .
qed

lemma canonicalize_snd:
  "snd (canonicalize cap g) =
     ir (snd (driver canonicalization_patterns cap \<lparr>ir = g, worklist = map op_id g\<rparr>))"
  by (simp add: canonicalize_def split: prod.splits)

section \<open>The pass preserves the results of evaluation\<close>

text \<open>transpose(transpose(transpose(x))) and a reshape chain on the same input.\<close>

definition ex_mixed :: graph where
  "ex_mixed = [mk_op 1 Transpose [BlockArg 0] [3, 2],
               mk_op 2 Transpose [OpResult 1] [2, 3],
               mk_op 3 Transpose [OpResult 2] [3, 2],
               mk_op 4 Reshape [OpResult 2] [6],
               mk_op 5 Reshape [OpResult 4] [1, 6],
               mk_op 6 Print [OpResult 5] [],
               mk_op 7 Add [OpResult 3, OpResult 3] [3, 2],
               mk_op 8 Return [OpResult 7] []]"

definition ex_input :: "int tensor" where
  "ex_input = \<lparr>shape = [2, 3], elems = [1, 2, 3, 4, 5, 6]\<rparr>"

text \<open>An interpretation of the other kinds: addition is elementwise.\<close>

definition ex_interp :: "int interp" where
  "ex_interp k i t ts =
     (case (k, ts) of
        (Add, [a, b]) \<Rightarrow> Some \<lparr>shape = shape a, elems = map2 (+) (elems a) (elems b)\<rparr>
      | _ \<Rightarrow> None)"

text \<open>
  Claim C1.  For a well-formed graph, every interpretation of the other operation kinds
  and every list of input tensors, the graph that the canonicalization pass returns
  (whatever the iteration cap, hence also at the fixpoint) evaluates to the same
  observations as the graph it was given, and is well-formed again.  Transposing a
  two-dimensional tensor twice gives the tensor back.
\<close>

theorem canonicalize_preserves_evaluation:
  assumes "wf_graph tys g"
  shows "evaluate I tys inputs (snd (canonicalize cap g)) = evaluate I tys inputs g \<and>
         wf_graph tys (snd (canonicalize cap g)) \<and>
         (\<forall>t r c. conforms t [r, c] \<longrightarrow>
            (\<exists>t'. transpose_t t = Some t' \<and> transpose_t t' = Some t))"
proof -
  have "wf_graph tys (ir \<lparr>ir = g, worklist = map op_id g\<rparr>)" using assms by simp
  from driver_preserves[OF this, of cap I inputs]
  have "evaluate I tys inputs (snd (canonicalize cap g)) = evaluate I tys inputs g"
    "wf_graph tys (snd (canonicalize cap g))" by (simp_all add: canonicalize_snd)
  moreover have "\<forall>t r c. conforms t [r, c] \<longrightarrow>
      (\<exists>t'::'b tensor. transpose_t t = Some t' \<and> transpose_t t' = Some t)"
    using transpose_t_conforms by blast
  ultimately show ?thesis by blast
qed

theorem canonicalize_preserves_evaluation_witness:
  "wf_graph [[2, 3]] ex_mixed \<and>
   canonicalize 30 ex_mixed =
     (Converged, [mk_op 3 Transpose [BlockArg 0] [3, 2],
                  \<lparr>op_id = 9, op_kind = Reshape, operands = [BlockArg 0], result_type = [1, 6], loc = 5\<rparr>,
                  mk_op 6 Print [OpResult 9] [],
                  mk_op 7 Add [OpResult 3, OpResult 3] [3, 2],
                  mk_op 8 Return [OpResult 7] []]) \<and>
   evaluate ex_interp [[2, 3]] [ex_input] (snd (canonicalize 30 ex_mixed)) =
     evaluate ex_interp [[2, 3]] [ex_input] ex_mixed \<and>
   evaluate ex_interp [[2, 3]] [ex_input] ex_mixed =
     [(Print, [Some \<lparr>shape = [1, 6], elems = [1, 2, 3, 4, 5, 6]\<rparr>]),
      (Return, [Some \<lparr>shape = [3, 2], elems = [2, 8, 4, 10, 6, 12]\<rparr>])]"
proof -
  have wf: "wf_graph [[2, 3]] ex_mixed" by (simp add: ex_mixed_def mk_op_def eval_defs)
  have c: "canonicalize 30 ex_mixed =
     (Converged, [mk_op 3 Transpose [BlockArg 0] [3, 2],
                  \<lparr>op_id = 9, op_kind = Reshape, operands = [BlockArg 0], result_type = [1, 6], loc = 5\<rparr>,
                  mk_op 6 Print [OpResult 9] [],
                  mk_op 7 Add [OpResult 3, OpResult 3] [3, 2],
                  mk_op 8 Return [OpResult 7] []])" by code_simp
  have e: "evaluate ex_interp [[2, 3]] [ex_input] ex_mixed =
     [(Print, [Some \<lparr>shape = [1, 6], elems = [1, 2, 3, 4, 5, 6]\<rparr>]),
      (Return, [Some \<lparr>shape = [3, 2], elems = [2, 8, 4, 10, 6, 12]\<rparr>])]" by code_simp
  from canonicalize_preserves_evaluation[OF wf, of ex_interp "[ex_input]" 30]
  have "evaluate ex_interp [[2, 3]] [ex_input] (snd (canonicalize 30 ex_mixed)) =
          evaluate ex_interp [[2, 3]] [ex_input] ex_mixed" by (rule conjunct1)
  with wf c e show ?thesis by (intro conjI)
qed

section \<open>Chain depth\<close>

text \<open>
  The chain depth of a value for a kind \<open>k\<close>: the number of consecutive operations of kind
  \<open>k\<close> that end in it.  The depth of a graph is the sum over its operations.
\<close>

definition op_depth :: "opkind \<Rightarrow> (val \<Rightarrow> nat) \<Rightarrow> operation \<Rightarrow> nat" where
  "op_depth k D p = (if op_kind p = k then Suc (D (getOperand p)) else 0)"

definition bind_depth :: "opkind \<Rightarrow> operation \<Rightarrow> (val \<Rightarrow> nat) \<Rightarrow> (val \<Rightarrow> nat)" where
  "bind_depth k p D = D(getResult p := op_depth k D p)"

fun depth_sum :: "opkind \<Rightarrow> (val \<Rightarrow> nat) \<Rightarrow> graph \<Rightarrow> nat" where
  "depth_sum k D [] = 0"
| "depth_sum k D (p # ps) = op_depth k D p + depth_sum k (bind_depth k p D) ps"

definition depth_env :: "opkind \<Rightarrow> graph \<Rightarrow> val \<Rightarrow> nat" where
  "depth_env k g = fold (bind_depth k) g (\<lambda>v. 0)"

definition reshape_depth :: "graph \<Rightarrow> nat" where
  "reshape_depth g = depth_sum Reshape (\<lambda>v. 0) g"

lemma depth_sum_append:
  "depth_sum k D (xs @ ys) = depth_sum k D xs + depth_sum k (fold (bind_depth k) xs D) ys"
  by (induction xs arbitrary: D) auto

lemma depth_env_append: "depth_env k (xs @ ys) = fold (bind_depth k) ys (depth_env k xs)"
  by (simp add: depth_env_def)

lemma depth_other: "v \<notin> getResult ` set g \<Longrightarrow> fold (bind_depth k) g D v = D v"
  by (induction g arbitrary: D) (auto simp: bind_depth_def)

lemma op_depth_cong:
  "(op_kind p = k \<Longrightarrow> D (getOperand p) = D' (getOperand p)) \<Longrightarrow> op_depth k D p = op_depth k D' p"
  by (simp add: op_depth_def)

lemma depth_final:
  "wf_ops G U g \<Longrightarrow> tydom G U \<Longrightarrow> q \<in> set g \<Longrightarrow> k = Transpose \<or> k = Reshape \<Longrightarrow>
     fold (bind_depth k) g D (getResult q) = op_depth k (fold (bind_depth k) g D) q"
proof (induction g arbitrary: G U D)
  case Nil
  then show ?case by simp
next
  case (Cons p ps)
  from Cons.prems(1) have w: "wf_op G p" and nu: "op_id p \<notin> U"
    and ws: "wf_ops (bind_result p G) (insert (op_id p) U) ps" by simp_all
  note t' = tydom_bind_result[OF Cons.prems(2), of p]
  show ?case
  proof (cases "q \<in> set ps")
    case True
    from Cons.IH[OF ws t' True Cons.prems(4)] show ?thesis by simp
  next
    case False
    with Cons.prems(3) have qp: "q = p" by simp
    have np: "getResult p \<notin> getResult ` set ps"
      using wf_ops_disjoint[OF ws] by (auto simp: getResult_def dest: in_ids)
    then have 1: "fold (bind_depth k) (p # ps) D (getResult p) = op_depth k D p"
      by (simp add: depth_other bind_depth_def)
    have "op_kind p = k \<Longrightarrow> fold (bind_depth k) (p # ps) D (getOperand p) = D (getOperand p)"
    proof -
      assume kp: "op_kind p = k"
      with Cons.prems(4) w have "operands p = [getOperand p]" by (auto intro: wf_op_unary)
      then have "getOperand p \<in> set (operands p)" by (metis list.set_intros(1))
      from wf_op_operands[OF w this] have gv: "G (getOperand p) \<noteq> None" .
      with Cons.prems(2) nu have ne: "getOperand p \<noteq> getResult p"
        by (auto simp: tydom_def getResult_def)
      then have "bind_result p G (getOperand p) \<noteq> None" using gv by (simp add: bind_result_def)
      from wf_ops_not_result[OF ws t' this] ne
      show ?thesis by (simp add: depth_other bind_depth_def)
    qed
    from op_depth_cong[of p k "fold (bind_depth k) (p # ps) D" D, OF this] 1 qp
    show ?thesis by simp
  qed
qed

lemma op_depth_rewire_le:
  assumes "op_kind q = k \<longrightarrow> operands q \<noteq> [] \<and> D2 (subst_val a b (getOperand q)) \<le> D1 (getOperand q)"
  shows "op_depth k D2 (rewire a b q) \<le> op_depth k D1 q"
  using assms by (auto simp: op_depth_def getOperand_rewire)

lemma depth_sum_rewire_le:
  assumes "\<forall>v. v \<notin> X \<longrightarrow> D2 (subst_val a b v) \<le> D1 v"
    and "\<forall>q\<in>set post. getResult q \<noteq> a \<and> getResult q \<noteq> b \<and> set (operands q) \<inter> X = {} \<and>
           (op_kind q = k \<longrightarrow> operands q \<noteq> [])"
  shows "depth_sum k D2 (map (rewire a b) post) \<le> depth_sum k D1 post"
  using assms
proof (induction post arbitrary: D1 D2)
  case Nil
  then show ?case by simp
next
  case (Cons q qs)
  have "op_kind q = k \<longrightarrow> operands q \<noteq> [] \<and> D2 (subst_val a b (getOperand q)) \<le> D1 (getOperand q)"
  proof
    assume kq: "op_kind q = k"
    with Cons.prems(2) have ne: "operands q \<noteq> []" by simp
    then have "getOperand q \<in> set (operands q)" by (simp add: getOperand_def)
    with Cons.prems(2) have "getOperand q \<notin> X" by auto
    with Cons.prems(1) ne
    show "operands q \<noteq> [] \<and> D2 (subst_val a b (getOperand q)) \<le> D1 (getOperand q)" by simp
  qed
  then have le: "op_depth k D2 (rewire a b q) \<le> op_depth k D1 q" by (rule op_depth_rewire_le)
  have qa: "getResult q \<noteq> a" "getResult q \<noteq> b" using Cons.prems(2) by simp_all
  have r': "\<forall>v. v \<notin> X \<longrightarrow> bind_depth k (rewire a b q) D2 (subst_val a b v) \<le> bind_depth k q D1 v"
    using Cons.prems(1) qa le by (auto simp: bind_depth_def subst_val_def)
  have "depth_sum k (bind_depth k (rewire a b q) D2) (map (rewire a b) qs)
          \<le> depth_sum k (bind_depth k q D1) qs"
    using r' Cons.prems(2) by (intro Cons.IH) auto
  with le show ?case by simp
qed

lemma wf_graph_nonempty_operands:
  assumes "wf_graph tys g" "q \<in> set g" "k = Transpose \<or> k = Reshape" "op_kind q = k"
  shows "operands q \<noteq> []"
  using wf_graph_arity[OF assms(1,2)] assms(3,4) by auto

lemma depth_erase_dead:
  assumes wf: "wf_graph tys (pre @ d # post)"
    and dead: "\<forall>q\<in>set post. getResult d \<notin> set (operands q)"
    and k: "k = Transpose \<or> k = Reshape"
  shows "depth_sum k D (pre @ post) \<le> depth_sum k D (pre @ d # post)"
proof -
  note idf = wf_graph_ids[OF wf]
  let ?D = "fold (bind_depth k) pre D"
  have "depth_sum k ?D (map (rewire (getResult d) (getResult d)) post)
          \<le> depth_sum k (bind_depth k d ?D) post"
  proof (rule depth_sum_rewire_le[where X = "{getResult d}"])
    show "\<forall>v. v \<notin> {getResult d} \<longrightarrow>
            ?D (subst_val (getResult d) (getResult d) v) \<le> bind_depth k d ?D v"
      by (simp add: bind_depth_def)
    show "\<forall>q\<in>set post. getResult q \<noteq> getResult d \<and> getResult q \<noteq> getResult d \<and>
            set (operands q) \<inter> {getResult d} = {} \<and> (op_kind q = k \<longrightarrow> operands q \<noteq> [])"
      using dead idf(2) wf_graph_nonempty_operands[OF wf _ k]
      by (auto simp: getResult_def dest: in_ids)
  qed
  then show ?thesis by (simp add: depth_sum_append)
qed

lemma depth_env_graph_final:
  assumes "wf_graph tys g" "q \<in> set g" "k = Transpose \<or> k = Reshape"
  shows "depth_env k g (getResult q) = op_depth k (depth_env k g) q"
  using depth_final[of "args_env tys" "{}" g q k "\<lambda>v. 0"] assms
  by (simp add: wf_graph_def depth_env_def)

lemma depth_reshape_rewrite:
  assumes wf: "wf_graph tys (pre @ p # post)"
    and k: "op_kind p = Reshape" "op_kind inner = Reshape"
    and inn: "inner \<in> set pre" "getOperand p = getResult inner"
    and n: "n = new_reshape (pre @ p # post) p (getOperand inner)"
  shows "reshape_depth (pre @ n # map (rewire (getResult p) (getResult n)) post)
           < reshape_depth (pre @ p # post)"
    and "op_depth Reshape (depth_env Reshape pre) p = Suc (op_depth Reshape (depth_env Reshape pre) n)"
proof -
  note at = wf_graph_at[OF wf] and idf = wf_graph_ids[OF wf]
  let ?D = "depth_env Reshape pre"
  let ?x = "getOperand inner"
  have di: "?D (getResult inner) = op_depth Reshape ?D inner"
    using at(1) inn(1) by (intro depth_env_graph_final) auto
  have dp: "op_depth Reshape ?D p = Suc (Suc (?D ?x))"
    using k inn(2) di by (simp add: op_depth_def)
  have dn: "op_depth Reshape ?D n = Suc (?D ?x)"
    using n by (simp add: op_depth_def getOperand_def)
  from dp dn show "op_depth Reshape ?D p = Suc (op_depth Reshape ?D n)" by simp
  have fr: "op_id n \<notin> ids (pre @ p # post)" using fresh_id_notin[of "pre @ p # post"] n by simp
  have unused: "\<forall>q\<in>set post. getResult n \<notin> set (operands q)"
  proof
    fix q assume "q \<in> set post"
    then have "q \<in> set (pre @ p # post)" by simp
    from wf_graph_operand_ids[OF wf this, of "op_id n"] fr
    show "getResult n \<notin> set (operands q)" by (auto simp: getResult_def)
  qed
  have "depth_sum Reshape (bind_depth Reshape n ?D) (map (rewire (getResult p) (getResult n)) post)
          \<le> depth_sum Reshape (bind_depth Reshape p ?D) post"
  proof (rule depth_sum_rewire_le[where X = "{getResult n}"])
    show "\<forall>v. v \<notin> {getResult n} \<longrightarrow>
            bind_depth Reshape n ?D (subst_val (getResult p) (getResult n) v)
              \<le> bind_depth Reshape p ?D v"
      using dp dn by (simp add: bind_depth_def subst_val_def)
    show "\<forall>q\<in>set post. getResult q \<noteq> getResult p \<and> getResult q \<noteq> getResult n \<and>
            set (operands q) \<inter> {getResult n} = {} \<and> (op_kind q = Reshape \<longrightarrow> operands q \<noteq> [])"
      using unused fr idf(2) wf_graph_nonempty_operands[OF wf, where k = Reshape]
      by (auto simp: getResult_def dest: in_ids)
  qed
  with dp dn show "reshape_depth (pre @ n # map (rewire (getResult p) (getResult n)) post)
           < reshape_depth (pre @ p # post)"
    by (simp add: reshape_depth_def depth_sum_append depth_env_def)
qed

definition count_kind :: "opkind \<Rightarrow> graph \<Rightarrow> nat" where
  "count_kind k g = length (filter (\<lambda>q. op_kind q = k) g)"

lemma count_kind_simps [simp]:
  "count_kind k [] = 0"
  "count_kind k (q # qs) = (if op_kind q = k then Suc (count_kind k qs) else count_kind k qs)"
  "count_kind k (xs @ ys) = count_kind k xs + count_kind k ys"
  "count_kind k (map (rewire a b) xs) = count_kind k xs"
  by (simp_all add: count_kind_def comp_def)

text \<open>Every step of the driver decreases this lexicographic measure.\<close>

definition driver_measures :: "(rewriter \<Rightarrow> nat) list" where
  "driver_measures =
     [\<lambda>rw. count_kind Transpose (ir rw), \<lambda>rw. reshape_depth (ir rw),
      \<lambda>rw. length (ir rw), \<lambda>rw. length (worklist rw)]"

lemma process_decreases:
  assumes wf: "wf_graph tys (ir rw)" and wl: "worklist rw = i # wl"
  shows "(process canonicalization_patterns i (rw\<lparr>worklist := wl\<rparr>), rw) \<in> measures driver_measures"
proof -
  let ?rw1 = "rw\<lparr>worklist := wl\<rparr>"
  have wf1: "wf_graph tys (ir ?rw1)" using wf by simp
  from wf1 show ?thesis
  proof (cases rule: process_cases[where i = i])
    case skip
    then show ?thesis using wl by (simp add: driver_measures_def)
  next
    case (erase pre d post)
    from wf erase(1) have wf': "wf_graph tys (pre @ d # post)" by simp
    from erase(1,4) have dead: "\<forall>q\<in>set post. getResult d \<notin> set (operands q)" by simp
    have g: "ir rw = pre @ d # post" using erase(1) by simp
    from depth_erase_dead[OF wf' dead, of Reshape "\<lambda>v. 0"]
    have "reshape_depth (pre @ post) \<le> reshape_depth (pre @ d # post)"
      by (simp add: reshape_depth_def)
    then show ?thesis unfolding driver_measures_def
      by (auto simp: erase(6) g)
  next
    case (transpose pre p post inner)
    have g: "ir rw = pre @ p # post" using transpose(1) by simp
    show ?thesis unfolding driver_measures_def
      by (simp add: transpose(9) g transpose(3))
  next
    case (reshape pre p post inner n)
    from wf reshape(1) have wf': "wf_graph tys (pre @ p # post)" by simp
    have g: "ir rw = pre @ p # post" using reshape(1) by simp
    from reshape(8,1) have n: "n = new_reshape (pre @ p # post) p (getOperand inner)" by simp
    have kn: "op_kind n = Reshape" using n by simp
    from depth_reshape_rewrite(1)[OF wf' reshape(3,4,5,6) n]
    show ?thesis unfolding driver_measures_def
      by (simp add: reshape(10) g reshape(3) kn)
  qed
qed

lemma process_wf:
  assumes "wf_graph tys (ir rw)"
  shows "wf_graph tys (ir (process canonicalization_patterns i rw))"
  using process_preserves[OF assms, where I = "\<lambda>k i t ts. (None :: unit tensor option)"]
  by (rule conjunct1)

lemma driver_empty: "worklist rw = [] \<Longrightarrow> driver ps n rw = (Converged, rw)"
  by (cases n) simp_all

lemma driver_step:
  "worklist rw = i # wl \<Longrightarrow> driver ps (Suc n) rw = driver ps n (process ps i (rw\<lparr>worklist := wl\<rparr>))"
  by simp

text \<open>On a well-formed graph the driver converges when the cap is large enough, and a
  larger cap does not change what it returns.\<close>

lemma driver_terminates:
  "wf_graph tys (ir rw) \<Longrightarrow> \<exists>n. fst (driver canonicalization_patterns n rw) = Converged"
proof (induction rw rule: wf_induct_rule[OF wf_measures[of driver_measures]])
  case (1 rw)
  show ?case
  proof (cases "worklist rw")
    case Nil
    then show ?thesis by (auto simp: driver_empty)
  next
    case (Cons i wl)
    let ?rw' = "process canonicalization_patterns i (rw\<lparr>worklist := wl\<rparr>)"
    have "wf_graph tys (ir (rw\<lparr>worklist := wl\<rparr>))" using "1.prems" by simp
    then have wf': "wf_graph tys (ir ?rw')" by (rule process_wf)
    from process_decreases[OF "1.prems" Cons] have "(?rw', rw) \<in> measures driver_measures" .
    from "1.IH"[OF this wf'] obtain n where "fst (driver canonicalization_patterns n ?rw') = Converged" ..
    with Cons have "fst (driver canonicalization_patterns (Suc n) rw) = Converged" by simp
    then show ?thesis ..
  qed
qed

lemma driver_mono:
  "fst (driver ps n rw) = Converged \<Longrightarrow> driver ps (n + m) rw = driver ps n rw"
proof (induction n arbitrary: rw)
  case 0
  then have "worklist rw = []" by (simp split: if_splits)
  then show ?case by (simp add: driver_empty)
next
  case (Suc n)
  show ?case
  proof (cases "worklist rw")
    case Nil
    then show ?thesis by (simp add: driver_empty)
  next
    case (Cons i wl)
    with Suc.prems have "fst (driver ps n (process ps i (rw\<lparr>worklist := wl\<rparr>))) = Converged" by simp
    from Suc.IH[OF this] Cons show ?thesis by simp
  qed
qed

lemma canonicalize_fst:
  "fst (canonicalize cap g) =
     fst (driver canonicalization_patterns cap \<lparr>ir = g, worklist = map op_id g\<rparr>)"
  by (simp add: canonicalize_def split: prod.splits)

lemma canonicalize_converges:
  assumes "wf_graph tys g"
  shows "\<exists>cap. \<forall>cap'\<ge>cap. fst (canonicalize cap' g) = Converged \<and>
           canonicalize cap' g = canonicalize cap g"
proof -
  let ?rw = "\<lparr>ir = g, worklist = map op_id g\<rparr>"
  have "wf_graph tys (ir ?rw)" using assms by simp
  from driver_terminates[OF this] obtain n where
    n: "fst (driver canonicalization_patterns n ?rw) = Converged" ..
  have "\<forall>cap'\<ge>n. fst (canonicalize cap' g) = Converged \<and> canonicalize cap' g = canonicalize n g"
  proof (intro allI impI)
    fix cap' assume "n \<le> cap'"
    then obtain m where "cap' = n + m" by (auto simp: le_iff_add)
    with driver_mono[OF n, of m] n
    show "fst (canonicalize cap' g) = Converged \<and> canonicalize cap' g = canonicalize n g"
      by (simp add: canonicalize_fst) (simp add: canonicalize_def)
  qed
  then show ?thesis ..
qed

section \<open>Repeated reshape rewrites terminate\<close>

text \<open>One successful application of the reshape pattern to a reshape of a well-formed
  graph, as a relation between the graph after and the graph before.\<close>

definition reshape_rewrites :: "ty list \<Rightarrow> (graph \<times> graph) set" where
  "reshape_rewrites tys =
     {(g', g). wf_graph tys g \<and>
        (\<exists>p wl rw'. p \<in> set g \<and> op_kind p = Reshape \<and>
           ReshapeReshapeOptPattern_matchAndRewrite p \<lparr>ir = g, worklist = wl\<rparr> = (success, rw') \<and>
           g' = ir rw')}"

lemma reshape_success:
  assumes "ReshapeReshapeOptPattern_matchAndRewrite p rw = (success, rw')"
  obtains inner where "getDefiningOp (ir rw) (getOperand p) = Some inner" "op_kind inner = Reshape"
    "rw' = replaceOpWithNewOp Reshape p (result_type p) [getOperand inner] rw"
  using assms
  by (auto simp: ReshapeReshapeOptPattern_matchAndRewrite_def getDefiningOp_as_Some
      split: option.splits)

lemma reshape_rewrites_decrease:
  assumes "(g', g) \<in> reshape_rewrites tys"
  shows "reshape_depth g' < reshape_depth g \<and> wf_graph tys g'"
proof -
  from assms obtain p wl rw' where wf: "wf_graph tys g" and p: "p \<in> set g"
    and k: "op_kind p = Reshape"
    and m: "ReshapeReshapeOptPattern_matchAndRewrite p \<lparr>ir = g, worklist = wl\<rparr> = (success, rw')"
    and g': "g' = ir rw'"
    by (auto simp: reshape_rewrites_def)
  let ?rw = "\<lparr>ir = g, worklist = wl\<rparr>"
  from m obtain inner where d: "getDefiningOp (ir ?rw) (getOperand p) = Some inner"
    and ki: "op_kind inner = Reshape"
    and rw': "rw' = replaceOpWithNewOp Reshape p (result_type p) [getOperand inner] ?rw"
    by (rule reshape_success)
  from p obtain pre post where g: "g = pre @ p # post" by (auto dest: split_list)
  from wf have wf': "wf_graph tys (pre @ p # post)" by (simp add: g)
  from d have d': "getDefiningOp (pre @ p # post) (getOperand p) = Some inner" by (simp add: g)
  note df = defining_op_before[OF wf' disjI2[OF k] d']
  note xf = inner_operand_facts[OF wf' df(1) disjI2[OF ki]]
  let ?n = "new_reshape g p (getOperand inner)"
  have n: "?n = new_reshape (pre @ p # post) p (getOperand inner)" by (simp add: g)
  have "ir ?rw = pre @ p # post" by (simp add: g)
  from replaceOpWithNewOp_split[OF wf' this xf(2)]
  have shape: "g' = pre @ ?n # map (rewire (getResult p) (getResult ?n)) post"
    by (simp add: g' rw')
  from depth_reshape_rewrite(1)[OF wf' k ki df(1,3) n]
    wf_graph_reshape_rewrite[OF wf' k ki df(1,3) n]
  show ?thesis unfolding shape by (simp add: g)
qed

lemma reshape_new_chain_depth:
  assumes wf: "wf_graph tys (ir rw)" and p: "p \<in> set (ir rw)"
    and k: "op_kind p = Reshape"
    and d: "getDefiningOp (ir rw) (getOperand p) = Some inner"
    and ki: "op_kind inner = Reshape"
  shows "depth_env Reshape (ir rw) (getResult p) =
           Suc (depth_env Reshape (ir (snd (ReshapeReshapeOptPattern_matchAndRewrite p rw)))
                  (OpResult (fresh_id (ir rw))))"
proof -
  let ?x = "getOperand inner"
  let ?rw' = "replaceOpWithNewOp Reshape p (result_type p) [?x] rw"
  let ?n = "new_reshape (ir rw) p ?x"
  let ?s = "rewire (getResult p) (getResult ?n)"
  from p obtain pre post where g: "ir rw = pre @ p # post" by (auto dest: split_list)
  from wf have wf': "wf_graph tys (pre @ p # post)" by (simp add: g)
  note idf = wf_graph_ids[OF wf']
  from d have d': "getDefiningOp (pre @ p # post) (getOperand p) = Some inner" by (simp add: g)
  note df = defining_op_before[OF wf' disjI2[OF k] d']
  note xf = inner_operand_facts[OF wf' df(1) disjI2[OF ki]]
  have shape: "ir ?rw' = pre @ ?n # map ?s post"
    using wf' g xf(2) by (rule replaceOpWithNewOp_split)
  have m: "ReshapeReshapeOptPattern_matchAndRewrite p rw = (success, ?rw')"
    using d ki by (rule reshape_match)
  have n: "?n = new_reshape (pre @ p # post) p ?x" by (simp add: g)
  have fr: "fresh_id (ir rw) \<notin> ids (ir rw)" by (rule fresh_id_notin)
  have "getResult p \<notin> getResult ` set post"
    using idf(2) by (auto simp: getResult_def dest: in_ids)
  then have 1: "depth_env Reshape (ir rw) (getResult p) = op_depth Reshape (depth_env Reshape pre) p"
    unfolding g depth_env_append by (simp add: depth_other bind_depth_def)
  have "getResult ?n \<notin> getResult ` set (map ?s post)"
    using fr by (auto simp: getResult_def g dest: in_ids)
  then have 2: "depth_env Reshape (ir ?rw') (getResult ?n) = op_depth Reshape (depth_env Reshape pre) ?n"
    unfolding shape depth_env_append by (simp add: depth_other bind_depth_def)
  from depth_reshape_rewrite(2)[OF wf' k ki df(1,3) n] 1 2 m
  show ?thesis by (simp add: getResult_def)
qed

text \<open>A chain of three reshapes and the graph after the pattern has rewritten the last.\<close>

definition ex_rrr :: graph where
  "ex_rrr = [mk_op 1 Reshape [BlockArg 0] [2, 3],
             mk_op 2 Reshape [OpResult 1] [3, 2],
             mk_op 3 Reshape [OpResult 2] [6],
             mk_op 4 Return [OpResult 3] []]"

definition ex_rrr_next :: graph where
  "ex_rrr_next = [mk_op 1 Reshape [BlockArg 0] [2, 3],
                  mk_op 2 Reshape [OpResult 1] [3, 2],
                  \<lparr>op_id = 5, op_kind = Reshape, operands = [OpResult 1], result_type = [6], loc = 3\<rparr>,
                  mk_op 4 Return [OpResult 5] []]"

text \<open>
  Claim C8.  There is no infinite sequence of successful applications of the reshape
  pattern: each application to a well-formed graph gives a well-formed graph whose
  reshape-chain depth (the sum, over the reshapes, of the number of consecutive reshapes
  ending in them) is strictly smaller.  The chain that ends in the new reshape is one
  shorter than the chain that ended in the matched reshape.
\<close>

theorem reshape_rewrites_terminate:
  "wf (reshape_rewrites tys) \<and>
   (\<forall>g g'. (g', g) \<in> reshape_rewrites tys \<longrightarrow>
      reshape_depth g' < reshape_depth g \<and> wf_graph tys g') \<and>
   (\<forall>rw p inner.
      wf_graph tys (ir rw) \<and> p \<in> set (ir rw) \<and> op_kind p = Reshape \<and>
      getDefiningOp (ir rw) (getOperand p) = Some inner \<and> op_kind inner = Reshape \<longrightarrow>
      depth_env Reshape (ir rw) (getResult p) =
        Suc (depth_env Reshape (ir (snd (ReshapeReshapeOptPattern_matchAndRewrite p rw)))
               (OpResult (fresh_id (ir rw)))))"
proof -
  have "reshape_rewrites tys \<subseteq> measure reshape_depth"
    using reshape_rewrites_decrease by auto
  then have "wf (reshape_rewrites tys)" by (rule wf_subset[OF wf_measure])
  with reshape_rewrites_decrease reshape_new_chain_depth show ?thesis by blast
qed

theorem reshape_rewrites_terminate_witness:
  "(ex_rrr_next, ex_rrr) \<in> reshape_rewrites [[6]] \<and>
   reshape_depth ex_rrr = 6 \<and> reshape_depth ex_rrr_next = 5 \<and>
   reshape_depth ex_rrr_next < reshape_depth ex_rrr \<and> wf_graph [[6]] ex_rrr_next"
proof -
  let ?p = "mk_op 3 Reshape [OpResult 2] [6]"
  let ?rw = "\<lparr>ir = ex_rrr, worklist = []\<rparr>"
  have wf: "wf_graph [[6]] ex_rrr" by (simp add: ex_rrr_def mk_op_def eval_defs)
  have p: "?p \<in> set ex_rrr" "op_kind ?p = Reshape" by (simp_all add: ex_rrr_def mk_op_def)
  have "fst (ReshapeReshapeOptPattern_matchAndRewrite ?p ?rw) = success \<and>
        ir (snd (ReshapeReshapeOptPattern_matchAndRewrite ?p ?rw)) = ex_rrr_next" by code_simp
  then have m: "ReshapeReshapeOptPattern_matchAndRewrite ?p ?rw =
                  (success, snd (ReshapeReshapeOptPattern_matchAndRewrite ?p ?rw))"
    and g': "ex_rrr_next = ir (snd (ReshapeReshapeOptPattern_matchAndRewrite ?p ?rw))"
    by (simp_all add: prod_eq_iff)
  have r: "(ex_rrr_next, ex_rrr) \<in> reshape_rewrites [[6]]"
    unfolding reshape_rewrites_def using wf p m g' by blast
  have d: "reshape_depth ex_rrr = 6" "reshape_depth ex_rrr_next = 5" by code_simp+
  from reshape_rewrites_terminate[of "[[6]]"] r
  have "reshape_depth ex_rrr_next < reshape_depth ex_rrr \<and> wf_graph [[6]] ex_rrr_next" by blast
  with r d show ?thesis by blast
qed

section \<open>The worklist holds every operation on which the driver can act\<close>

definition all_queued :: "rewriter \<Rightarrow> bool" where
  "all_queued rw = (\<forall>q\<in>set (ir rw). actionable (ir rw) q \<longrightarrow> op_id q \<in> set (worklist rw))"

lemma distinct_ids_eq:
  "distinct (map op_id g) \<Longrightarrow> q \<in> set g \<Longrightarrow> p \<in> set g \<Longrightarrow> op_id q = op_id p \<Longrightarrow> q = p"
  by (auto simp: distinct_map dest: inj_onD)

lemma dead_iff:
  "isOpTriviallyDead g q \<longleftrightarrow> has_result (op_kind q) \<and> (\<forall>u\<in>set g. getResult q \<notin> set (operands u))"
  by (auto simp: isOpTriviallyDead_def users_of_def filter_empty_conv)

lemma queued_after_rewrite:
  assumes dist: "distinct (map op_id g)"
    and p: "p \<in> set g"
    and closed: "\<forall>q\<in>set g. \<forall>j. OpResult j \<in> set (operands q) \<longrightarrow> j \<in> ids g"
    and ne: "\<forall>q\<in>set g. op_kind q = Transpose \<or> op_kind q = Reshape \<longrightarrow> operands q \<noteq> []"
    and g': "set g' = rewire (getResult p) b ` (set g - {p}) \<union> N"
    and N: "\<forall>n\<in>N. op_id n \<notin> ids g \<and> op_id n \<in> W'"
    and queued: "\<forall>q\<in>set g. actionable g q \<longrightarrow> op_id q = op_id p \<or> op_id q \<in> W"
    and keep: "W - {op_id p} \<subseteq> W'"
    and users: "\<forall>q\<in>set g. q \<noteq> p \<and> getResult p \<in> set (operands q) \<longrightarrow> op_id q \<in> W'"
    and prods: "\<forall>q\<in>set g. q \<noteq> p \<and> getResult q \<in> set (operands p) \<longrightarrow> op_id q \<in> W'"
  shows "\<forall>q'\<in>set g'. actionable g' q' \<longrightarrow> op_id q' \<in> W'"
proof (intro ballI impI)
  let ?s = "rewire (getResult p) b"
  fix q' assume q': "q' \<in> set g'" and act: "actionable g' q'"
  from q' g' consider "q' \<in> N" | q where "q \<in> set g" "q \<noteq> p" "q' = ?s q" by auto
  then show "op_id q' \<in> W'"
  proof cases
    case 1
    with N show ?thesis by simp
  next
    case (2 q)
    have idq: "op_id q \<noteq> op_id p" using distinct_ids_eq[OF dist 2(1) p] 2(2) by blast
    then have rq: "getResult q \<noteq> getResult p" by (simp add: getResult_def)
    have old: "actionable g q \<Longrightarrow> op_id q' \<in> W'"
      using queued 2(1,3) idq keep by auto
    from act show ?thesis unfolding actionable_def
    proof
      assume "isOpTriviallyDead g' q'"
      then have hr: "has_result (op_kind q)"
        and nu: "\<forall>u'\<in>set g'. getResult q \<notin> set (operands u')"
        using 2(3) by (simp_all add: dead_iff)
      have others: "\<forall>u\<in>set g. u \<noteq> p \<longrightarrow> getResult q \<notin> set (operands u)"
      proof (intro ballI impI)
        fix u assume u: "u \<in> set g" "u \<noteq> p"
        then have "?s u \<in> set g'" using g' by auto
        with nu have "getResult q \<notin> set (operands (?s u))" by blast
        then show "getResult q \<notin> set (operands u)"
          using rq by (auto simp: subst_val_def image_iff)
      qed
      show ?thesis
      proof (cases "getResult q \<in> set (operands p)")
        case True
        with prods 2 show ?thesis by simp
      next
        case False
        with others have "\<forall>u\<in>set g. getResult q \<notin> set (operands u)" by metis
        with hr have "actionable g q" by (simp add: actionable_def dead_iff)
        then show ?thesis by (rule old)
      qed
    next
      assume rd: "redex g' q'"
      then have kq: "op_kind q = Transpose \<or> op_kind q = Reshape"
        using 2(3) by (simp add: redex_def)
      with ne 2(1) have nonempty: "operands q \<noteq> []" by blast
      then have oq: "getOperand q' = subst_val (getResult p) b (getOperand q)"
        using 2(3) by (simp add: getOperand_rewire)
      have inq: "getOperand q \<in> set (operands q)" using nonempty by (simp add: getOperand_def)
      show ?thesis
      proof (cases "getResult p \<in> set (operands q)")
        case True
        with users 2 show ?thesis by simp
      next
        case False
        with inq have "getOperand q \<noteq> getResult p" by auto
        with oq have oq': "getOperand q' = getOperand q" by (simp add: subst_val_def)
        from rd obtain e' where e': "getDefiningOp g' (getOperand q) = Some e'"
          and ke: "op_kind e' = op_kind q"
          using 2(3) oq' by (auto simp: redex_def getDefiningOp_as_Some)
        from e' obtain j where j: "getOperand q = OpResult j" and l: "lookup_op g' j = Some e'"
          by (auto simp: getDefiningOp_def split: val.splits)
        from lookup_op_SomeD[OF l] have e'in: "e' \<in> set g'" and e'id: "op_id e' = j" by simp_all
        from closed 2(1) inq j have jg: "j \<in> ids g" by auto
        with N e'id have "e' \<notin> N" by auto
        with e'in g' obtain e where e: "e \<in> set g" "e' = ?s e" by auto
        then have "op_id e = j" "op_kind e = op_kind q" using e'id ke by simp_all
        moreover from lookup_op_distinct[OF dist e(1)] have "lookup_op g (op_id e) = Some e" .
        ultimately have "getDefiningOp_as (op_kind q) g (getOperand q) = Some e"
          using j by (simp add: getDefiningOp_as_Some getDefiningOp_def)
        with kq have "actionable g q" by (simp add: actionable_def redex_def)
        then show ?thesis by (rule old)
      qed
    qed
  qed
qed

lemma producers_mem:
  assumes "distinct (map op_id g)" "q \<in> set g" "getResult q \<in> set (operands d)"
  shows "op_id q \<in> set (producers g d)"
proof -
  from lookup_op_distinct[OF assms(1,2)]
  have "getDefiningOp g (getResult q) = Some q" by (simp add: getDefiningOp_def getResult_def)
  with assms(3) show ?thesis by (force simp: producers_def)
qed

lemma worklist_replaceOp:
  "set (worklist (replaceOp p [v] rw)) =
     (set (worklist rw) \<union> op_id ` set (users_of (ir rw) (getResult p)) \<union>
      set (producers (map (rewire (getResult p) v) (ir rw)) p)) - {op_id p}"
  by (simp add: worklist_eraseOp worklist_replaceAllUsesWith)

lemma not_in_ids: "op_id p \<notin> ids xs \<Longrightarrow> p \<notin> set xs"
  by (auto dest: in_ids)

lemma set_without:
  assumes "wf_graph tys (pre @ p # post)"
  shows "set (pre @ p # post) - {p} = set pre \<union> set post"
  using wf_graph_ids(1,2)[OF assms] by (auto dest: in_ids)

lemma op_id_comp_rewire [simp]: "op_id \<circ> rewire a b = op_id"
  by (rule ext) simp

lemma process_queued:
  assumes wf: "wf_graph tys (ir rw)" and wl: "worklist rw = i # wl" and q: "all_queued rw"
  shows "all_queued (process canonicalization_patterns i (rw\<lparr>worklist := wl\<rparr>))"
proof -
  let ?rw1 = "rw\<lparr>worklist := wl\<rparr>"
  let ?g = "ir rw"
  let ?P = "process canonicalization_patterns i ?rw1"
  have wf1: "wf_graph tys (ir ?rw1)" using wf by simp
  have dist: "distinct (map op_id ?g)" using wf by (auto simp: wf_graph_def intro: wf_ops_distinct)
  have closed: "\<forall>q\<in>set ?g. \<forall>j. OpResult j \<in> set (operands q) \<longrightarrow> j \<in> ids ?g"
    using wf_graph_operand_ids[OF wf] by blast
  have ne: "\<forall>q\<in>set ?g. op_kind q = Transpose \<or> op_kind q = Reshape \<longrightarrow> operands q \<noteq> []"
    using wf_graph_arity[OF wf] by auto
  have queued: "\<forall>q\<in>set ?g. actionable ?g q \<longrightarrow> op_id q = i \<or> op_id q \<in> set wl"
    using q wl by (auto simp: all_queued_def)
  from wf1 show ?thesis
  proof (cases rule: process_cases[where i = i])
    case skip
    have "\<forall>q\<in>set ?g. actionable ?g q \<longrightarrow> op_id q \<in> set wl"
    proof (intro ballI impI)
      fix q assume a: "q \<in> set ?g" "actionable ?g q"
      with skip(2) lookup_op_distinct[OF dist a(1)] have "op_id q \<noteq> i" by auto
      with queued a show "op_id q \<in> set wl" by blast
    qed
    then show ?thesis unfolding skip(1) by (simp add: all_queued_def)
  next
    case (erase pre d post)
    have g: "?g = pre @ d # post" using erase(1) by simp
    from wf g have wf': "wf_graph tys (pre @ d # post)" by simp
    have din: "d \<in> set ?g" by (simp add: g)
    have "\<forall>q'\<in>set (pre @ post). actionable (pre @ post) q' \<longrightarrow> op_id q' \<in> set (worklist (eraseOp d ?rw1))"
    proof (rule queued_after_rewrite[OF dist din closed ne, where b = "getResult d" and N = "{}"
          and W = "set wl"])
      show "set (pre @ post) = rewire (getResult d) (getResult d) ` (set ?g - {d}) \<union> {}"
        unfolding g set_without[OF wf'] by simp
      show "\<forall>n\<in>{}. op_id n \<notin> ids ?g \<and> op_id n \<in> set (worklist (eraseOp d ?rw1))" by simp
      show "\<forall>q\<in>set ?g. actionable ?g q \<longrightarrow> op_id q = op_id d \<or> op_id q \<in> set wl"
        using queued erase(2) by simp
      show "set wl - {op_id d} \<subseteq> set (worklist (eraseOp d ?rw1))"
        by (auto simp: worklist_eraseOp)
      show "\<forall>q\<in>set ?g. q \<noteq> d \<and> getResult d \<in> set (operands q) \<longrightarrow>
              op_id q \<in> set (worklist (eraseOp d ?rw1))"
        using erase(4) by simp
      show "\<forall>q\<in>set ?g. q \<noteq> d \<and> getResult q \<in> set (operands d) \<longrightarrow>
              op_id q \<in> set (worklist (eraseOp d ?rw1))"
      proof (intro ballI impI)
        fix q assume a: "q \<in> set ?g" "q \<noteq> d \<and> getResult q \<in> set (operands d)"
        then have "op_id q \<in> set (producers ?g d)" using dist by (intro producers_mem) simp_all
        moreover have "op_id q \<noteq> op_id d" using distinct_ids_eq[OF dist a(1) din] a(2) by blast
        ultimately show "op_id q \<in> set (worklist (eraseOp d ?rw1))"
          by (simp add: worklist_eraseOp)
      qed
    qed
    then show ?thesis unfolding all_queued_def erase(5)[symmetric] erase(6) by simp
  next
    case (transpose pre p post inner)
    have g: "?g = pre @ p # post" using transpose(1) by simp
    from wf g have wf': "wf_graph tys (pre @ p # post)" by simp
    note idf = wf_graph_ids[OF wf']
    have pin: "p \<in> set ?g" by (simp add: g)
    let ?x = "getOperand inner"
    let ?s = "rewire (getResult p) ?x"
    let ?g' = "pre @ map ?s post"
    let ?W' = "set (worklist (replaceOp p [?x] ?rw1))"
    have pre: "map ?s pre = pre"
      using wf_graph_unused_before[OF wf' _ idf(1)] by (intro map_rewire_ident) (simp add: getResult_def)
    have "\<forall>q'\<in>set ?g'. actionable ?g' q' \<longrightarrow> op_id q' \<in> ?W'"
    proof (rule queued_after_rewrite[OF dist pin closed ne, where b = ?x and N = "{}" and W = "set wl"])
      have "set ?g' = set (map ?s pre) \<union> set (map ?s post)" unfolding pre by simp
      then show "set ?g' = ?s ` (set ?g - {p}) \<union> {}"
        unfolding g set_without[OF wf'] by (simp add: image_Un)
      show "\<forall>n\<in>{}. op_id n \<notin> ids ?g \<and> op_id n \<in> ?W'" by simp
      show "\<forall>q\<in>set ?g. actionable ?g q \<longrightarrow> op_id q = op_id p \<or> op_id q \<in> set wl"
        using queued transpose(2) by simp
      show "set wl - {op_id p} \<subseteq> ?W'" unfolding worklist_replaceOp by auto
      show "\<forall>q\<in>set ?g. q \<noteq> p \<and> getResult p \<in> set (operands q) \<longrightarrow> op_id q \<in> ?W'"
      proof (intro ballI impI)
        fix q assume a: "q \<in> set ?g" "q \<noteq> p \<and> getResult p \<in> set (operands q)"
        then have "op_id q \<in> op_id ` set (users_of ?g (getResult p))" by (simp add: users_of_def)
        moreover have "op_id q \<noteq> op_id p" using distinct_ids_eq[OF dist a(1) pin] a(2) by blast
        ultimately show "op_id q \<in> ?W'" unfolding worklist_replaceOp by simp
      qed
      show "\<forall>q\<in>set ?g. q \<noteq> p \<and> getResult q \<in> set (operands p) \<longrightarrow> op_id q \<in> ?W'"
      proof (intro ballI impI)
        fix q assume a: "q \<in> set ?g" "q \<noteq> p \<and> getResult q \<in> set (operands p)"
        have "op_id (?s q) \<in> set (producers (map ?s ?g) p)"
          using dist a by (intro producers_mem) simp_all
        moreover have "op_id q \<noteq> op_id p" using distinct_ids_eq[OF dist a(1) pin] a(2) by blast
        ultimately show "op_id q \<in> ?W'" unfolding worklist_replaceOp by simp
      qed
    qed
    then show ?thesis unfolding all_queued_def transpose(8)[symmetric] transpose(9) by simp
  next
    case (reshape pre p post inner n)
    have g: "?g = pre @ p # post" using reshape(1) by simp
    from wf g have wf': "wf_graph tys (pre @ p # post)" by simp
    note idf = wf_graph_ids[OF wf']
    have pin: "p \<in> set ?g" by (simp add: g)
    let ?x = "getOperand inner"
    let ?s = "rewire (getResult p) (getResult n)"
    let ?g' = "pre @ n # map ?s post"
    let ?R = "replaceOpWithNewOp Reshape p (result_type p) [?x] ?rw1"
    let ?W' = "set (worklist ?R)"
    have n: "n = new_reshape ?g p ?x" using reshape(8) by simp
    have nid: "op_id n = fresh_id ?g" using n by simp
    have fr: "op_id n \<notin> ids ?g" using fresh_id_notin[of ?g] nid by simp
    have g1: "insertBefore (op_id p) n ?g = pre @ n # p # post"
      using idf(1) by (simp add: g insertBefore_split)
    have dist1: "distinct (map op_id (pre @ n # p # post))"
      using dist fr unfolding g by (auto simp: ids_def)
    have W': "?W' = (set wl \<union> {fresh_id ?g} \<union> op_id ` set (users_of (pre @ n # p # post) (getResult p)) \<union>
                set (producers (map ?s (pre @ n # p # post)) p)) - {op_id p}"
      using g1 n by (simp add: worklist_replaceOpWithNewOp Let_def new_reshape_def)
    have pre: "map ?s pre = pre"
      using wf_graph_unused_before[OF wf' _ idf(1)] by (intro map_rewire_ident) (simp add: getResult_def)
    have "\<forall>q'\<in>set ?g'. actionable ?g' q' \<longrightarrow> op_id q' \<in> ?W'"
    proof (rule queued_after_rewrite[OF dist pin closed ne, where b = "getResult n" and N = "{n}"
          and W = "set wl"])
      have "set ?g' = set (map ?s pre) \<union> set (map ?s post) \<union> {n}" unfolding pre by auto
      then show "set ?g' = ?s ` (set ?g - {p}) \<union> {n}"
        unfolding g set_without[OF wf'] by (simp add: image_Un)
      have "op_id n \<noteq> op_id p" using fr pin by (auto dest: in_ids)
      then show "\<forall>n'\<in>{n}. op_id n' \<notin> ids ?g \<and> op_id n' \<in> ?W'"
        using fr nid unfolding W' by simp
      show "\<forall>q\<in>set ?g. actionable ?g q \<longrightarrow> op_id q = op_id p \<or> op_id q \<in> set wl"
        using queued reshape(2) by simp
      show "set wl - {op_id p} \<subseteq> ?W'" unfolding W' by auto
      show "\<forall>q\<in>set ?g. q \<noteq> p \<and> getResult p \<in> set (operands q) \<longrightarrow> op_id q \<in> ?W'"
      proof (intro ballI impI)
        fix q assume a: "q \<in> set ?g" "q \<noteq> p \<and> getResult p \<in> set (operands q)"
        then have "q \<in> set (users_of (pre @ n # p # post) (getResult p))"
          by (auto simp: users_of_def g)
        then have "op_id q \<in> op_id ` set (users_of (pre @ n # p # post) (getResult p))"
          by (rule imageI)
        moreover have "op_id q \<noteq> op_id p" using distinct_ids_eq[OF dist a(1) pin] a(2) by blast
        ultimately show "op_id q \<in> ?W'" unfolding W' by simp
      qed
      show "\<forall>q\<in>set ?g. q \<noteq> p \<and> getResult q \<in> set (operands p) \<longrightarrow> op_id q \<in> ?W'"
      proof (intro ballI impI)
        fix q assume a: "q \<in> set ?g" "q \<noteq> p \<and> getResult q \<in> set (operands p)"
        then have "q \<in> set (pre @ n # p # post)" by (auto simp: g)
        then have m: "?s q \<in> set (map ?s (pre @ n # p # post))"
          unfolding set_map by (rule imageI)
        have "op_id (?s q) \<in> set (producers (map ?s (pre @ n # p # post)) p)"
        proof (rule producers_mem)
          show "distinct (map op_id (map ?s (pre @ n # p # post)))" using dist1 by simp
          show "?s q \<in> set (map ?s (pre @ n # p # post))" by (rule m)
          show "getResult (?s q) \<in> set (operands p)" using a(2) by simp
        qed
        moreover have "op_id q \<noteq> op_id p" using distinct_ids_eq[OF dist a(1) pin] a(2) by blast
        ultimately show "op_id q \<in> ?W'" unfolding W' by simp
      qed
    qed
    then show ?thesis unfolding all_queued_def reshape(9)[symmetric] reshape(10) by simp
  qed
qed

lemma driver_converged_empty:
  "driver ps n rw = (Converged, rw') \<Longrightarrow> worklist rw' = []"
proof (induction n arbitrary: rw)
  case 0
  then show ?case by (auto split: if_splits)
next
  case (Suc n)
  show ?case
  proof (cases "worklist rw")
    case Nil
    with Suc.prems show ?thesis by simp
  next
    case (Cons i wl)
    with Suc.prems have "driver ps n (process ps i (rw\<lparr>worklist := wl\<rparr>)) = (Converged, rw')" by simp
    then show ?thesis by (rule Suc.IH)
  qed
qed

lemma driver_queued:
  assumes "wf_graph tys (ir rw)" "all_queued rw"
  shows "wf_graph tys (ir (snd (driver canonicalization_patterns n rw))) \<and>
         all_queued (snd (driver canonicalization_patterns n rw))"
proof (rule driver_invariant[where P = "\<lambda>rw. wf_graph tys (ir rw) \<and> all_queued rw"])
  show "wf_graph tys (ir rw) \<and> all_queued rw" using assms by simp
next
  fix rw' :: rewriter and i wl
  assume a: "wf_graph tys (ir rw') \<and> all_queued rw'" and wl: "worklist rw' = i # wl"
  from a have "wf_graph tys (ir (rw'\<lparr>worklist := wl\<rparr>))" by simp
  then have "wf_graph tys (ir (process canonicalization_patterns i (rw'\<lparr>worklist := wl\<rparr>)))"
    by (rule process_wf)
  moreover from a wl have "all_queued (process canonicalization_patterns i (rw'\<lparr>worklist := wl\<rparr>))"
    by (intro process_queued[where tys = tys]) simp_all
  ultimately show "wf_graph tys (ir (process canonicalization_patterns i (rw'\<lparr>worklist := wl\<rparr>))) \<and>
      all_queued (process canonicalization_patterns i (rw'\<lparr>worklist := wl\<rparr>))" ..
qed

text \<open>At the fixpoint the driver can act on no operation.\<close>

lemma canonicalize_fixpoint:
  assumes wf: "wf_graph tys g" and c: "canonicalize cap g = (Converged, g')"
  shows "wf_graph tys g'" "\<forall>p\<in>set g'. \<not> actionable g' p"
proof -
  let ?rw = "\<lparr>ir = g, worklist = map op_id g\<rparr>"
  obtain rw' where d: "driver canonicalization_patterns cap ?rw = (Converged, rw')" and g': "g' = ir rw'"
    using c by (auto simp: canonicalize_def split: prod.splits)
  have "wf_graph tys (ir ?rw)" "all_queued ?rw" using wf by (simp_all add: all_queued_def)
  from driver_queued[OF this, of cap] d have w: "wf_graph tys (ir rw')" and q: "all_queued rw'" by simp_all
  from w show "wf_graph tys g'" by (simp add: g')
  from driver_converged_empty[OF d] q show "\<forall>p\<in>set g'. \<not> actionable g' p"
    by (auto simp: all_queued_def g')
qed

lemma process_stable:
  assumes "\<forall>p\<in>set (ir rw). \<not> actionable (ir rw) p"
  shows "process canonicalization_patterns i rw = rw"
proof (cases "lookup_op (ir rw) i")
  case None
  then show ?thesis by (simp add: process_def)
next
  case (Some p)
  from lookup_op_SomeD[OF Some] assms have "\<not> actionable (ir rw) p" by blast
  with Some show ?thesis by (rule process_not_actionable)
qed

lemma driver_stable:
  assumes "\<forall>p\<in>set (ir rw). \<not> actionable (ir rw) p"
  shows "ir (snd (driver canonicalization_patterns n rw)) = ir rw"
    and "length (worklist rw) \<le> n \<Longrightarrow> fst (driver canonicalization_patterns n rw) = Converged"
  using assms
proof (induction n arbitrary: rw)
  case 0
  { case 1 show ?case by simp }
  { case 2 then show ?case by simp }
next
  case (Suc n)
  { case 1
    show ?case
    proof (cases "worklist rw")
      case Nil
      then show ?thesis by simp
    next
      case (Cons i wl)
      have "process canonicalization_patterns i (rw\<lparr>worklist := wl\<rparr>) = rw\<lparr>worklist := wl\<rparr>"
        using 1 by (intro process_stable) simp
      with Cons Suc.IH(1)[of "rw\<lparr>worklist := wl\<rparr>"] 1 show ?thesis by simp
    qed }
  { case 2
    show ?case
    proof (cases "worklist rw")
      case Nil
      then show ?thesis by simp
    next
      case (Cons i wl)
      have "process canonicalization_patterns i (rw\<lparr>worklist := wl\<rparr>) = rw\<lparr>worklist := wl\<rparr>"
        using 2 by (intro process_stable) simp
      with Cons Suc.IH(2)[of "rw\<lparr>worklist := wl\<rparr>"] 2 show ?thesis by simp
    qed }
qed

lemma not_actionable_no_match:
  assumes "\<not> actionable (ir rw) p"
  shows "op_kind p = Transpose \<Longrightarrow> SimplifyRedundantTranspose_matchAndRewrite p rw = (failure, rw)"
    and "op_kind p = Reshape \<Longrightarrow> ReshapeReshapeOptPattern_matchAndRewrite p rw = (failure, rw)"
  using assms
  by (auto simp: actionable_def redex_def intro: transpose_no_match reshape_no_match)

section \<open>The pass is idempotent\<close>

text \<open>
  Claim C6.  For a well-formed graph some iteration cap lets the pass converge.  When a
  run has converged, a second run on its result returns that same graph, whatever its
  cap, and converges as soon as its cap allows one look at each operation; and on no
  transpose of the result does the transpose pattern match, on no reshape the reshape
  pattern, and no operation of it is dead.
\<close>

theorem canonicalize_idempotent:
  assumes "wf_graph tys g"
  shows "(\<exists>cap. fst (canonicalize cap g) = Converged) \<and>
         (\<forall>cap g'. canonicalize cap g = (Converged, g') \<longrightarrow>
            (\<forall>cap'. snd (canonicalize cap' g') = g') \<and>
            (\<forall>cap'\<ge>length g'. canonicalize cap' g' = (Converged, g')) \<and>
            (\<forall>p\<in>set g'. \<forall>wl.
               (op_kind p = Transpose \<longrightarrow>
                  SimplifyRedundantTranspose_matchAndRewrite p \<lparr>ir = g', worklist = wl\<rparr>
                    = (failure, \<lparr>ir = g', worklist = wl\<rparr>)) \<and>
               (op_kind p = Reshape \<longrightarrow>
                  ReshapeReshapeOptPattern_matchAndRewrite p \<lparr>ir = g', worklist = wl\<rparr>
                    = (failure, \<lparr>ir = g', worklist = wl\<rparr>)) \<and>
               \<not> isOpTriviallyDead g' p))"
proof (intro conjI allI impI)
  from canonicalize_converges[OF assms] show "\<exists>cap. fst (canonicalize cap g) = Converged" by blast
next
  fix cap g' cap' assume c: "canonicalize cap g = (Converged, g')"
  note fp = canonicalize_fixpoint(2)[OF assms c]
  let ?rw = "\<lparr>ir = g', worklist = map op_id g'\<rparr>"
  have na: "\<forall>p\<in>set (ir ?rw). \<not> actionable (ir ?rw) p" using fp by simp
  from driver_stable(1)[OF na, of cap'] show "snd (canonicalize cap' g') = g'"
    by (simp add: canonicalize_snd)
next
  fix cap g' cap' assume c: "canonicalize cap g = (Converged, g')" and le: "length g' \<le> cap'"
  note fp = canonicalize_fixpoint(2)[OF assms c]
  let ?rw = "\<lparr>ir = g', worklist = map op_id g'\<rparr>"
  have na: "\<forall>p\<in>set (ir ?rw). \<not> actionable (ir ?rw) p" using fp by simp
  from driver_stable[OF na, of cap'] le show "canonicalize cap' g' = (Converged, g')"
    by (cases "driver canonicalization_patterns cap' ?rw") (simp add: canonicalize_def)
next
  fix cap g' assume c: "canonicalize cap g = (Converged, g')"
  note fp = canonicalize_fixpoint(2)[OF assms c]
  show "\<forall>p\<in>set g'. \<forall>wl.
               (op_kind p = Transpose \<longrightarrow>
                  SimplifyRedundantTranspose_matchAndRewrite p \<lparr>ir = g', worklist = wl\<rparr>
                    = (failure, \<lparr>ir = g', worklist = wl\<rparr>)) \<and>
               (op_kind p = Reshape \<longrightarrow>
                  ReshapeReshapeOptPattern_matchAndRewrite p \<lparr>ir = g', worklist = wl\<rparr>
                    = (failure, \<lparr>ir = g', worklist = wl\<rparr>)) \<and>
               \<not> isOpTriviallyDead g' p"
  proof (intro ballI allI)
    fix p wl assume "p \<in> set g'"
    with fp have na: "\<not> actionable (ir \<lparr>ir = g', worklist = wl\<rparr>) p" by simp
    from not_actionable_no_match[OF this] na
    show "(op_kind p = Transpose \<longrightarrow>
                  SimplifyRedundantTranspose_matchAndRewrite p \<lparr>ir = g', worklist = wl\<rparr>
                    = (failure, \<lparr>ir = g', worklist = wl\<rparr>)) \<and>
               (op_kind p = Reshape \<longrightarrow>
                  ReshapeReshapeOptPattern_matchAndRewrite p \<lparr>ir = g', worklist = wl\<rparr>
                    = (failure, \<lparr>ir = g', worklist = wl\<rparr>)) \<and>
               \<not> isOpTriviallyDead g' p"
      by (simp add: actionable_def)
  qed
qed

text \<open>The graph that the pass returns for \<open>ex_mixed\<close>.\<close>

definition ex_mixed_done :: graph where
  "ex_mixed_done =
     [mk_op 3 Transpose [BlockArg 0] [3, 2],
      \<lparr>op_id = 9, op_kind = Reshape, operands = [BlockArg 0], result_type = [1, 6], loc = 5\<rparr>,
      mk_op 6 Print [OpResult 9] [],
      mk_op 7 Add [OpResult 3, OpResult 3] [3, 2],
      mk_op 8 Return [OpResult 7] []]"

theorem canonicalize_idempotent_witness:
  "wf_graph [[2, 3]] ex_mixed \<and>
   canonicalize 30 ex_mixed = (Converged, ex_mixed_done) \<and>
   canonicalize 30 ex_mixed_done = (Converged, ex_mixed_done) \<and>
   snd (canonicalize 2 ex_mixed_done) = ex_mixed_done \<and>
   SimplifyRedundantTranspose_matchAndRewrite (mk_op 3 Transpose [BlockArg 0] [3, 2])
     \<lparr>ir = ex_mixed_done, worklist = []\<rparr> = (failure, \<lparr>ir = ex_mixed_done, worklist = []\<rparr>)"
proof -
  have wf: "wf_graph [[2, 3]] ex_mixed" by (simp add: ex_mixed_def mk_op_def eval_defs)
  have c: "canonicalize 30 ex_mixed = (Converged, ex_mixed_done)" by code_simp
  have l: "length ex_mixed_done \<le> 30" by (simp add: ex_mixed_done_def)
  have p: "mk_op 3 Transpose [BlockArg 0] [3, 2] \<in> set ex_mixed_done"
    "op_kind (mk_op 3 Transpose [BlockArg 0] [3, 2]) = Transpose"
    by (simp_all add: ex_mixed_done_def mk_op_def)
  from canonicalize_idempotent[OF wf] c l p
  have "canonicalize 30 ex_mixed_done = (Converged, ex_mixed_done)"
    "snd (canonicalize 2 ex_mixed_done) = ex_mixed_done"
    "SimplifyRedundantTranspose_matchAndRewrite (mk_op 3 Transpose [BlockArg 0] [3, 2])
       \<lparr>ir = ex_mixed_done, worklist = []\<rparr> = (failure, \<lparr>ir = ex_mixed_done, worklist = []\<rparr>)"
    by blast+
  with wf c show ?thesis by (intro conjI)
qed

section \<open>Chains of transposes and of reshapes\<close>





text \<open>The result types of \<open>n\<close> transposes in a row.\<close>

fun alternating :: "ty \<Rightarrow> nat \<Rightarrow> ty list" where
  "alternating t 0 = []"
| "alternating t (Suc n) = rev t # alternating (rev t) n"



lemma length_alternating [simp]: "length (alternating t n) = n"
  by (induction n arbitrary: t) auto





























section \<open>Depth reduction of chains\<close>



end
